theory Spec2Isabelle
  imports Main "HOL-Library.Word" "HOL-Library.Multiset" "HOL-Library.Sublist"
begin

section \<open>Data model of deatomize (src/main.go)\<close>

text \<open>
  \<^verbatim>\<open>type status uint32\<close> with the six constants of the \<^verbatim>\<open>const\<close> block
  (\<^verbatim>\<open>notNasty = status(iota)\<close> is 0, the zero value of the type). No other value is
  ever stored in a record.
\<close>

datatype status =
    notNasty
  | repairable
  | nastyNotChunk
  | nastyNoVersions
  | nastyInvalidVersion
  | nastyNotExistsAnymore

text \<open>
  \<^verbatim>\<open>eosclient.FileInfo\<close> belongs to the backend client library; the program reads its
  fields \<^verbatim>\<open>File\<close> (string), \<^verbatim>\<open>Size\<close> (uint64) and \<^verbatim>\<open>MTimeSec\<close> (uint64) only.
\<close>

record FileInfo =
  fi_File :: string
  fi_Size :: "64 word"
  MTimeSec :: "64 word"

text \<open>
  \<^verbatim>\<open>type record struct\<close>. \<^verbatim>\<open>Date\<close> (a \<^verbatim>\<open>time.Time\<close> built by \<^verbatim>\<open>time.Unix(i, 0)\<close>) is kept
  as the number of seconds; \<^verbatim>\<open>ValidVersion\<close> is a pointer, \<open>None\<close> when nil.
\<close>

record record_t =
  FXID :: string
  Handled :: bool
  Size :: "64 word"
  Date :: int
  File :: string
  Status :: status
  Versions :: "FileInfo list"
  ValidVersion :: "FileInfo option"

text \<open>The zero value of the struct, as \<^verbatim>\<open>&record{}\<close> allocates it.\<close>

definition zero_record :: record_t where
  "zero_record = \<lparr>FXID = [], Handled = False, Size = 0, Date = 0, File = [],
     Status = notNasty, Versions = [], ValidVersion = None\<rparr>"

subsection \<open>isChunked\<close>

text \<open>
  \<^verbatim>\<open>func isChunked(size uint64) bool { if size%(10*1000000) == 0 { return true }; return false }\<close>
\<close>

definition isChunked :: "64 word \<Rightarrow> bool" where
  "isChunked sz = (if sz mod (10 * 1000000) = 0 then True else False)"

subsection \<open>Errors, the store and the backend\<close>

text \<open>
  A Go \<^verbatim>\<open>error\<close> returned by the backend client: the "not found" error is told apart
  from every other one. \<^verbatim>\<open>log.Fatal\<close> ends the process; a run that ends this way
  returns a \<open>fatal\<close> value. \<open>NilDereference\<close> is the panic of \<^verbatim>\<open>r.ValidVersion.File\<close>
  on a nil \<^verbatim>\<open>ValidVersion\<close>.
\<close>

datatype error = ErrNotFound | ErrOther string

datatype fatal = LogFatal error | LogFatalInvalidRecord | NilDereference

text \<open>
  Records are handled through pointers (\<^verbatim>\<open>[]*record\<close>) and mutated in place, so the
  model keeps them in a store: an address is a natural number, \<^verbatim>\<open>&record{...}\<close> takes
  the next free address. A pointer to a record is never nil in this program.
\<close>

type_synonym addr = nat

text \<open>
  What a run does to the outside, in order: the calls to the backend client, and (to be
  able to count them) the assignments \<^verbatim>\<open>r.Versions = versions\<close>.
\<close>

datatype event =
    CallGetFileInfoByFXID string
  | CallListVersions string
  | CallRollbackToVersion string string
  | AssignVersions addr

record 's world =
  heap :: "addr \<Rightarrow> record_t"
  next_addr :: addr
  trace :: "event list"
  backend :: 's

definition init_world :: "'s \<Rightarrow> 's world" where
  "init_world b = \<lparr>heap = (\<lambda>a. zero_record), next_addr = 0, trace = [], backend = b\<rparr>"

text \<open>
  The three methods of \<^verbatim>\<open>eosclient.Client\<close> the program calls. The backend has a state
  of its own (type \<open>'s\<close>), which every call may read and change, so two calls with the
  same argument need not answer the same. The context, user and group arguments are
  fixed for a run and left out.
\<close>

record 's client =
  GetFileInfoByFXID :: "string \<Rightarrow> 's \<Rightarrow> (error + FileInfo) \<times> 's"
  ListVersions :: "string \<Rightarrow> 's \<Rightarrow> (error + FileInfo list) \<times> 's"
  RollbackToVersion :: "string \<Rightarrow> string \<Rightarrow> 's \<Rightarrow> error option \<times> 's"

subsection \<open>Standard library\<close>

text \<open>\<^verbatim>\<open>strings.Contains(s, substr)\<close>: \<open>substr\<close> occurs in \<open>s\<close> as a contiguous run.\<close>

fun strings_Contains :: "string \<Rightarrow> string \<Rightarrow> bool" where
  "strings_Contains [] substr = (substr = [])"
| "strings_Contains (c # s) substr = (prefix substr (c # s) \<or> strings_Contains s substr)"

text \<open>
  \<^verbatim>\<open>path.Base\<close>: the last element of a slash-separated path, trailing slashes removed;
  \<^verbatim>\<open>"."\<close> for the empty path and \<^verbatim>\<open>"/"\<close> for a path of slashes only.
\<close>

definition path_Base :: "string \<Rightarrow> string" where
  "path_Base p =
    (if p = [] then ''.''
     else let q = rev (dropWhile (\<lambda>c. c = CHR ''/'') (rev p));
              b = rev (takeWhile (\<lambda>c. c \<noteq> CHR ''/'') (rev q))
          in if b = [] then ''/'' else b)"

text \<open>
  \<^verbatim>\<open>sort.Slice(x, less)\<close> is taken as a parameter of the model: a function from the
  comparison and the slice to the slice as the call leaves it. Its documentation
  promises a sorted rearrangement and no more ("The sort is not guaranteed to be stable:
  equal elements may be reversed from their original order"); \<open>sort_Slice_contract\<close>
  says that, for one comparison.
\<close>

type_synonym sorter = "(FileInfo \<Rightarrow> FileInfo \<Rightarrow> bool) \<Rightarrow> FileInfo list \<Rightarrow> FileInfo list"

definition sort_Slice_contract :: "sorter \<Rightarrow> (FileInfo \<Rightarrow> FileInfo \<Rightarrow> bool) \<Rightarrow> bool" where
  "sort_Slice_contract sort_Slice lt =
    (\<forall>xs. mset (sort_Slice lt xs) = mset xs \<and>
          sorted_wrt (\<lambda>a b. \<not> lt b a) (sort_Slice lt xs))"

subsection \<open>getRecords\<close>

text \<open>
  The loader. Its input is what \<^verbatim>\<open>ioutil.ReadFile\<close> and the successive \<^verbatim>\<open>r.Read()\<close>
  calls of the CSV reader return before \<^verbatim>\<open>io.EOF\<close>: an error, or the fields of one
  line. \<^verbatim>\<open>strconv.ParseInt(_, 10, 64)\<close> and \<^verbatim>\<open>strings.TrimSpace\<close> are parameters.
  Each line allocates one record, \<^verbatim>\<open>&record{FXID: strings.TrimSpace(each[1])}\<close>, every
  other field at its zero value, and then sets \<^verbatim>\<open>Date\<close>.
\<close>

fun getRecords_loop ::
  "(string \<Rightarrow> error + int) \<Rightarrow> (string \<Rightarrow> string) \<Rightarrow> (error + string list) list \<Rightarrow>
   addr list \<Rightarrow> 's world \<Rightarrow> (fatal + addr list) \<times> 's world" where
  "getRecords_loop ParseInt TrimSpace [] records w = (Inr records, w)"
| "getRecords_loop ParseInt TrimSpace (rd # rest) records w =
    (case rd of
       Inl err \<Rightarrow> (Inl (LogFatal err), w)
     | Inr each \<Rightarrow>
        if length each \<noteq> 2 then (Inl LogFatalInvalidRecord, w)
        else
          let r = next_addr w;
              w1 = w\<lparr>heap := (heap w)(r := zero_record\<lparr>FXID := TrimSpace (each ! 1)\<rparr>),
                     next_addr := r + 1\<rparr>
          in (case ParseInt (each ! 0) of
                Inl err \<Rightarrow> (Inl LogFatalInvalidRecord, w1)
              | Inr i \<Rightarrow>
                  getRecords_loop ParseInt TrimSpace rest (records @ [r])
                    (w1\<lparr>heap := (heap w1)(r := (heap w1 r)\<lparr>Date := i\<rparr>)\<rparr>)))"

definition getRecords ::
  "(string \<Rightarrow> error + int) \<Rightarrow> (string \<Rightarrow> string) \<Rightarrow> error + (error + string list) list \<Rightarrow>
   's world \<Rightarrow> (fatal + addr list) \<times> 's world" where
  "getRecords ParseInt TrimSpace file w =
    (case file of
       Inl err \<Rightarrow> (Inl (LogFatal err), w)
     | Inr reads \<Rightarrow> getRecords_loop ParseInt TrimSpace reads [] w)"

subsection \<open>skipRecords\<close>

record skipped =
  sk_Recycle :: nat
  sk_Versions :: nat
  sk_Atomic :: nat

fun skipRecords_loop ::
  "'s client \<Rightarrow> addr list \<Rightarrow> addr list \<Rightarrow> skipped \<Rightarrow> 's world \<Rightarrow>
   (addr list \<times> skipped) \<times> 's world" where
  "skipRecords_loop client [] toret sk w = ((toret, sk), w)"
| "skipRecords_loop client (r # records) toret sk w =
    (case GetFileInfoByFXID client (FXID (heap w r)) (backend w) of
       (res, b) \<Rightarrow>
        let w1 = w\<lparr>trace := trace w @ [CallGetFileInfoByFXID (FXID (heap w r))],
                   backend := b\<rparr>
        in (case res of
              Inl err \<Rightarrow> skipRecords_loop client records toret sk w1
            | Inr fi \<Rightarrow>
                let filename = fi_File fi in
                if strings_Contains filename ''/proc/recycle'' then
                  skipRecords_loop client records toret (sk\<lparr>sk_Recycle := sk_Recycle sk + 1\<rparr>) w1
                else if strings_Contains filename ''sys.v'' then
                  skipRecords_loop client records toret (sk\<lparr>sk_Versions := sk_Versions sk + 1\<rparr>) w1
                else if strings_Contains filename ''sys.a'' then
                  skipRecords_loop client records toret (sk\<lparr>sk_Atomic := sk_Atomic sk + 1\<rparr>) w1
                else
                  skipRecords_loop client records (toret @ [r]) sk
                    (w1\<lparr>heap := (heap w1)(r := (heap w1 r)\<lparr>File := filename\<rparr>)\<rparr>)))"

definition skipRecords ::
  "'s client \<Rightarrow> addr list \<Rightarrow> 's world \<Rightarrow> (addr list \<times> skipped) \<times> 's world" where
  "skipRecords client records w =
    skipRecords_loop client records [] \<lparr>sk_Recycle = 0, sk_Versions = 0, sk_Atomic = 0\<rparr> w"

subsection \<open>getRecordDistribution\<close>

fun getRecordDistribution_loop ::
  "addr list \<Rightarrow> addr list \<Rightarrow> addr list \<Rightarrow> 's world \<Rightarrow> (addr list \<times> addr list) \<times> 's world" where
  "getRecordDistribution_loop [] chunked nasty w = ((chunked, nasty), w)"
| "getRecordDistribution_loop (r # records) chunked nasty w =
    (if isChunked (Size (heap w r)) then
       getRecordDistribution_loop records (chunked @ [r]) nasty
         (w\<lparr>heap := (heap w)(r := (heap w r)\<lparr>Handled := True\<rparr>)\<rparr>)
     else
       getRecordDistribution_loop records chunked (nasty @ [r])
         (w\<lparr>heap := (heap w)(r := (heap w r)\<lparr>Handled := True, Status := nastyNotChunk\<rparr>)\<rparr>))"

definition getRecordDistribution ::
  "addr list \<Rightarrow> 's world \<Rightarrow> (addr list \<times> addr list) \<times> 's world" where
  "getRecordDistribution records w = getRecordDistribution_loop records [] [] w"

subsection \<open>sortVersions and haveValidVersion\<close>

text \<open>
  \<^verbatim>\<open>sort.Slice(versions, func(i, j int) bool { return versions[i].MTimeSec > versions[j].MTimeSec })\<close>
\<close>

definition mtime_newer :: "FileInfo \<Rightarrow> FileInfo \<Rightarrow> bool" where
  "mtime_newer vi vj = (MTimeSec vi > MTimeSec vj)"

definition sortVersions :: "sorter \<Rightarrow> FileInfo list \<Rightarrow> FileInfo list" where
  "sortVersions sort_Slice versions = sort_Slice mtime_newer versions"

text \<open>
  The \<^verbatim>\<open>for _, v := range r.Versions\<close> of \<^verbatim>\<open>haveValidVersion\<close>: a chunked version is
  passed over, the first other one is stored and ends the function with \<^verbatim>\<open>true\<close>.
  (The entries of a listing are pointers; the backend is taken never to return a nil one.)
\<close>

fun haveValidVersion_loop :: "FileInfo list \<Rightarrow> record_t \<Rightarrow> bool \<times> record_t" where
  "haveValidVersion_loop [] r = (False, r)"
| "haveValidVersion_loop (v # vs) r =
    (if isChunked (fi_Size v) then haveValidVersion_loop vs r
     else (True, r\<lparr>Status := notNasty, ValidVersion := Some v\<rparr>))"

text \<open>The sort is in place: the record's \<^verbatim>\<open>Versions\<close> come out sorted.\<close>

definition haveValidVersion :: "sorter \<Rightarrow> record_t \<Rightarrow> bool \<times> record_t" where
  "haveValidVersion sort_Slice r =
    (let r1 = r\<lparr>Versions := sortVersions sort_Slice (Versions r)\<rparr>
     in haveValidVersion_loop (Versions r1) r1)"

subsection \<open>analyze\<close>

text \<open>
  One turn of the loop of \<^verbatim>\<open>analyze\<close> after the versions have been listed: the
  record as the turn leaves it, and whether it stays in the chunked list.
\<close>

definition analyze_record :: "sorter \<Rightarrow> record_t \<Rightarrow> FileInfo list \<Rightarrow> bool \<times> record_t" where
  "analyze_record sort_Slice r versions =
    (let r1 = r\<lparr>Versions := versions\<rparr> in
     if length (Versions r1) = 0 then (False, r1\<lparr>Status := nastyNoVersions\<rparr>)
     else
       (case haveValidVersion sort_Slice r1 of
          (valid, r2) \<Rightarrow>
            if valid then (True, r2) else (False, r2\<lparr>Status := nastyInvalidVersion\<rparr>)))"

fun analyze_loop ::
  "sorter \<Rightarrow> 's client \<Rightarrow> addr list \<Rightarrow> addr list \<Rightarrow> addr list \<Rightarrow> 's world \<Rightarrow>
   (fatal + addr list \<times> addr list) \<times> 's world" where
  "analyze_loop sort_Slice client [] newchunked nasty w = (Inr (newchunked, nasty), w)"
| "analyze_loop sort_Slice client (r # chunked) newchunked nasty w =
    (case ListVersions client (File (heap w r)) (backend w) of
       (res, b) \<Rightarrow>
        let w1 = w\<lparr>trace := trace w @ [CallListVersions (File (heap w r))], backend := b\<rparr>
        in (case res of
              Inl err \<Rightarrow> (Inl (LogFatal err), w1)
            | Inr versions \<Rightarrow>
                (case analyze_record sort_Slice (heap w1 r) versions of
                   (keep, r') \<Rightarrow>
                     let w2 = w1\<lparr>heap := (heap w1)(r := r'),
                                 trace := trace w1 @ [AssignVersions r]\<rparr>
                     in if keep then
                          analyze_loop sort_Slice client chunked (newchunked @ [r]) nasty w2
                        else
                          analyze_loop sort_Slice client chunked newchunked (nasty @ [r]) w2)))"

definition analyze ::
  "sorter \<Rightarrow> 's client \<Rightarrow> addr list \<Rightarrow> addr list \<Rightarrow> 's world \<Rightarrow>
   (fatal + addr list \<times> addr list) \<times> 's world" where
  "analyze sort_Slice client chunked nasty w = analyze_loop sort_Slice client chunked [] nasty w"

subsection \<open>analyzeNasty\<close>

fun analyzeNasty ::
  "'s client \<Rightarrow> addr list \<Rightarrow> 's world \<Rightarrow> (fatal + unit) \<times> 's world" where
  "analyzeNasty client [] w = (Inr (), w)"
| "analyzeNasty client (r # nasty) w =
    (let w0 = w\<lparr>heap := (heap w)(r := (heap w r)\<lparr>Handled := True\<rparr>)\<rparr> in
     case ListVersions client (File (heap w0 r)) (backend w0) of
       (res, b) \<Rightarrow>
        let w1 = w0\<lparr>trace := trace w0 @ [CallListVersions (File (heap w0 r))], backend := b\<rparr>
        in (case res of
              Inl err \<Rightarrow> (Inl (LogFatal err), w1)
            | Inr versions \<Rightarrow>
                analyzeNasty client nasty
                  (w1\<lparr>heap := (heap w1)(r := (heap w1 r)\<lparr>Versions := versions\<rparr>),
                      trace := trace w1 @ [AssignVersions r]\<rparr>)))"

subsection \<open>rollback\<close>

text \<open>
  \<^verbatim>\<open>repair\<close> is the command-line flag. The \<^verbatim>\<open>Printf\<close> at the head of the loop reads
  \<^verbatim>\<open>r.ValidVersion.File\<close> in both modes, so a record without a valid version panics.
  The error of \<^verbatim>\<open>RollbackToVersion\<close> is printed and the loop goes on.
\<close>

fun rollback ::
  "'s client \<Rightarrow> bool \<Rightarrow> addr list \<Rightarrow> 's world \<Rightarrow> (fatal + unit) \<times> 's world" where
  "rollback client repair [] w = (Inr (), w)"
| "rollback client repair (r # chunked) w =
    (case ValidVersion (heap w r) of
       None \<Rightarrow> (Inl NilDereference, w)
     | Some v \<Rightarrow>
        if repair then
          (case RollbackToVersion client (File (heap w r)) (path_Base (fi_File v)) (backend w) of
             (err, b) \<Rightarrow>
               rollback client repair chunked
                 (w\<lparr>trace := trace w @
                      [CallRollbackToVersion (File (heap w r)) (path_Base (fi_File v))],
                    backend := b\<rparr>))
        else rollback client repair chunked w)"

subsection \<open>main\<close>

text \<open>
  The stages in the order of \<^verbatim>\<open>main\<close>; the counting and printing between them change
  nothing and are left out. A completed run returns the repairable list, the nasty list
  and the skip counters.
\<close>

definition main_run ::
  "sorter \<Rightarrow> (string \<Rightarrow> error + int) \<Rightarrow> (string \<Rightarrow> string) \<Rightarrow> 's client \<Rightarrow> bool \<Rightarrow>
   error + (error + string list) list \<Rightarrow> 's \<Rightarrow>
   (fatal + addr list \<times> addr list \<times> skipped) \<times> 's world" where
  "main_run sort_Slice ParseInt TrimSpace client repair file b =
    (case getRecords ParseInt TrimSpace file (init_world b) of
       (Inl f, w1) \<Rightarrow> (Inl f, w1)
     | (Inr records, w1) \<Rightarrow>
        (case skipRecords client records w1 of
           ((newRecords, sk), w2) \<Rightarrow>
            (case getRecordDistribution newRecords w2 of
               ((chunked, nasty), w3) \<Rightarrow>
                (case analyze sort_Slice client chunked nasty w3 of
                   (Inl f, w4) \<Rightarrow> (Inl f, w4)
                 | (Inr (chunked', nasty'), w4) \<Rightarrow>
                    (case analyzeNasty client nasty' w4 of
                       (Inl f, w5) \<Rightarrow> (Inl f, w5)
                     | (Inr u, w5) \<Rightarrow>
                        (case rollback client repair chunked' w5 of
                           (Inl f, w6) \<Rightarrow> (Inl f, w6)
                         | (Inr u', w6) \<Rightarrow> (Inr (chunked', nasty', sk), w6)))))))"

subsection \<open>Two sorters within the contract of sort.Slice\<close>

text \<open>
  Insertion sort as the Go runtime writes it: the element at \<open>i\<close> moves left while it is
  less than its left neighbour. The part already sorted is kept newest-placed first
  (reversed), so moving left is going down the list. This sorter is stable.
\<close>

fun insert_left :: "('a \<Rightarrow> 'a \<Rightarrow> bool) \<Rightarrow> 'a \<Rightarrow> 'a list \<Rightarrow> 'a list" where
  "insert_left lt x [] = [x]"
| "insert_left lt x (y # ys) = (if lt x y then y # insert_left lt x ys else x # y # ys)"

definition insertionSort :: "('a \<Rightarrow> 'a \<Rightarrow> bool) \<Rightarrow> 'a list \<Rightarrow> 'a list" where
  "insertionSort lt xs = rev (foldl (\<lambda>placed x. insert_left lt x placed) [] xs)"

text \<open>
  The same, after one pass that swaps the elements six places apart when the later one
  is less than the earlier one. It sorts every slice, and it is not stable. (Up to
  Go 1.18 the runtime sorted a slice of at most twelve elements exactly this way.)
\<close>

definition gap_swap :: "('a \<Rightarrow> 'a \<Rightarrow> bool) \<Rightarrow> nat \<Rightarrow> 'a list \<Rightarrow> 'a list" where
  "gap_swap lt i xs =
    (if lt (xs ! i) (xs ! (i - 6)) then xs[i := xs ! (i - 6), i - 6 := xs ! i] else xs)"

definition gapInsertionSort :: "('a \<Rightarrow> 'a \<Rightarrow> bool) \<Rightarrow> 'a list \<Rightarrow> 'a list" where
  "gapInsertionSort lt xs = insertionSort lt (fold (gap_swap lt) [6..<length xs] xs)"

subsection \<open>A backend that always answers the same\<close>

text \<open>
  For the concrete runs below: a backend without state, whose three calls return fixed
  answers.
\<close>

definition fixed_client ::
  "(error + FileInfo) \<Rightarrow> (error + FileInfo list) \<Rightarrow> error option \<Rightarrow> unit client" where
  "fixed_client md vs rb =
    \<lparr>GetFileInfoByFXID = (\<lambda>fxid s. (md, s)),
     ListVersions = (\<lambda>p s. (vs, s)),
     RollbackToVersion = (\<lambda>p v s. (rb, s))\<rparr>"

text \<open>The assignments to \<^verbatim>\<open>Versions\<close> of the record at \<open>a\<close>, and the rollback calls, in a trace.\<close>

definition versions_assignments :: "event list \<Rightarrow> addr \<Rightarrow> nat" where
  "versions_assignments tr a = count_list tr (AssignVersions a)"

fun is_rollback_call :: "event \<Rightarrow> bool" where
  "is_rollback_call (CallRollbackToVersion p v) = True"
| "is_rollback_call e = False"

definition rollback_calls :: "event list \<Rightarrow> event list" where
  "rollback_calls tr = filter is_rollback_call tr"

subsection \<open>The order the specification describes\<close>

text \<open>
  Written from the specification's words, to compare with \<open>sortVersions\<close>: versions
  descending by \<^verbatim>\<open>mtimeSeconds\<close>, versions of equal time in input order (a stable
  sort), and the version chosen from that order.
\<close>

definition spec_sortVersions :: "FileInfo list \<Rightarrow> FileInfo list" where
  "spec_sortVersions vs = rev (sort_key MTimeSec (rev vs))"

definition spec_selectedVersion :: "FileInfo list \<Rightarrow> FileInfo option" where
  "spec_selectedVersion vs = find (\<lambda>v. \<not> isChunked (fi_Size v)) (spec_sortVersions vs)"

subsection \<open>Concrete versions\<close>

definition version :: "string \<Rightarrow> 64 word \<Rightarrow> 64 word \<Rightarrow> FileInfo" where
  "version f s m = \<lparr>fi_File = f, fi_Size = s, MTimeSec = m\<rparr>"

text \<open>
  Seven versions: two whole files of the same time, four chunked older ones and a chunked
  newest one.
\<close>

definition seven_versions :: "FileInfo list" where
  "seven_versions =
    [version ''a'' 1500 5, version ''b'' 2500 5,
     version ''c'' 10000000 1, version ''d'' 10000000 1,
     version ''e'' 10000000 1, version ''f'' 10000000 1,
     version ''g'' 20000000 9]"

subsection \<open>A concrete run\<close>

text \<open>
  The input line of the specification's scenarios, \<^verbatim>\<open>1592324325 018edb0f\<close>, as the CSV
  reader splits it; \<^verbatim>\<open>strconv.ParseInt\<close> on that one timestamp; and a run of \<open>main\<close> on
  that line against a backend that reports the file \<^verbatim>\<open>/eos/user/j/jdoe/f\<close> with the
  given size, answers every version listing with \<open>vs\<close> and fails every rollback.
\<close>

definition example_file :: "error + (error + string list) list" where
  "example_file = Inr [Inr [''1592324325'', ''018edb0f'']]"

definition example_ParseInt :: "string \<Rightarrow> error + int" where
  "example_ParseInt s =
    (if s = ''1592324325'' then Inr 1592324325 else Inl (ErrOther ''invalid syntax''))"

definition example_client :: "64 word \<Rightarrow> error + FileInfo list \<Rightarrow> unit client" where
  "example_client sz vs =
    fixed_client (Inr (version ''/eos/user/j/jdoe/f'' sz 100)) vs
      (Some (ErrOther ''rollback failed''))"

definition example_run ::
  "64 word \<Rightarrow> error + FileInfo list \<Rightarrow> bool \<Rightarrow>
   (fatal + addr list \<times> addr list \<times> skipped) \<times> unit world" where
  "example_run sz vs repair =
    main_run insertionSort example_ParseInt (\<lambda>s. s) (example_client sz vs) repair
      example_file ()"

text \<open>
  Two versions of that file: a chunk-aligned one at time 100 and a whole one at time 90.
\<close>

definition version_100 :: FileInfo where
  "version_100 = version ''/eos/user/j/jdoe/.sys.v#.f/1592325000.0c2d'' 30000000 100"

definition version_90 :: FileInfo where
  "version_90 = version ''/eos/user/j/jdoe/.sys.v#.f/1592324000.0a1b'' 15000000 90"

definition no_skips :: skipped where
  "no_skips = \<lparr>sk_Recycle = 0, sk_Versions = 0, sk_Atomic = 0\<rparr>"

section \<open>Size classification\<close>

text \<open>
  C2. For every size \<open>s\<close>, \<open>isChunked s\<close> holds if and only if \<open>s mod 10,000,000\<close> is 0,
  in 64-bit arithmetic and, what is the same, for the number \<open>s\<close> stands for; in
  particular \<open>isChunked 0\<close> is true.
\<close>

theorem isChunked_iff_multiple:
  "(isChunked s \<longleftrightarrow> s mod 10000000 = 0) \<and>
   (isChunked s \<longleftrightarrow> unat s mod 10000000 = 0) \<and> isChunked 0"
proof -
  have "unat (s mod 10000000) = unat s mod 10000000"
    by (simp add: unat_mod_distrib)
  moreover have "(s mod 10000000 = 0) \<longleftrightarrow> (unat (s mod 10000000) = 0)"
    by (simp add: unat_eq_0)
  ultimately show ?thesis
    by (simp add: isChunked_def)
qed

section \<open>Version resolution\<close>

subsection \<open>The two sorters keep the contract\<close>

lemma mset_insert_left: "mset (insert_left lt x ys) = add_mset x (mset ys)"
  by (induction ys) auto

lemma mset_foldl_insert_left:
  "mset (foldl (\<lambda>placed x. insert_left lt x placed) acc xs) = mset acc + mset xs"
  by (induction xs arbitrary: acc) (auto simp: mset_insert_left)

lemma mset_insertionSort: "mset (insertionSort lt xs) = mset xs"
  by (simp add: insertionSort_def mset_foldl_insert_left)

lemma set_insert_left: "set (insert_left lt x ys) = insert x (set ys)"
  by (induction ys) auto

lemma sorted_insert_left:
  "sorted_wrt (\<lambda>a b. MTimeSec a \<le> MTimeSec b) ys \<Longrightarrow>
   sorted_wrt (\<lambda>a b. MTimeSec a \<le> MTimeSec b) (insert_left mtime_newer x ys)"
  by (induction ys) (auto simp: set_insert_left mtime_newer_def)

lemma sorted_foldl_insert_left:
  "sorted_wrt (\<lambda>a b. MTimeSec a \<le> MTimeSec b) acc \<Longrightarrow>
   sorted_wrt (\<lambda>a b. MTimeSec a \<le> MTimeSec b)
     (foldl (\<lambda>placed x. insert_left mtime_newer x placed) acc xs)"
  by (induction xs arbitrary: acc) (auto simp: sorted_insert_left)

lemma sorted_insertionSort:
  "sorted_wrt (\<lambda>a b. \<not> mtime_newer b a) (insertionSort mtime_newer xs)"
proof -
  have "sorted_wrt (\<lambda>a b. MTimeSec a \<le> MTimeSec b)
     (foldl (\<lambda>placed x. insert_left mtime_newer x placed) [] xs)"
    by (rule sorted_foldl_insert_left) simp
  then have "sorted_wrt (\<lambda>a b. MTimeSec b \<le> MTimeSec a) (insertionSort mtime_newer xs)"
    by (simp add: insertionSort_def sorted_wrt_rev)
  then show ?thesis
    by (simp add: mtime_newer_def not_less)
qed

lemma insertionSort_contract: "sort_Slice_contract insertionSort mtime_newer"
  by (simp add: sort_Slice_contract_def mset_insertionSort sorted_insertionSort)

lemma mset_gap_swap: "i < length xs \<Longrightarrow> mset (gap_swap lt i xs) = mset xs"
  by (simp add: gap_swap_def mset_swap)

lemma length_gap_swap: "length (gap_swap lt i xs) = length xs"
  by (simp add: gap_swap_def)

lemma mset_fold_gap_swap:
  "\<forall>i\<in>set is. i < length xs \<Longrightarrow> mset (fold (gap_swap lt) is xs) = mset xs"
  by (induction "is" arbitrary: xs) (auto simp: mset_gap_swap length_gap_swap)

lemma gapInsertionSort_contract: "sort_Slice_contract gapInsertionSort mtime_newer"
  by (simp add: sort_Slice_contract_def gapInsertionSort_def mset_insertionSort
      sorted_insertionSort mset_fold_gap_swap)

subsection \<open>What sortVersions gives under the contract\<close>

lemma contract_mset:
  "sort_Slice_contract S mtime_newer \<Longrightarrow> mset (sortVersions S vs) = mset vs"
  by (simp add: sort_Slice_contract_def sortVersions_def)

lemma contract_set:
  "sort_Slice_contract S mtime_newer \<Longrightarrow> set (sortVersions S vs) = set vs"
  by (metis contract_mset set_mset_mset)

lemma contract_sorted:
  "sort_Slice_contract S mtime_newer \<Longrightarrow>
   sorted_wrt (\<lambda>a b. MTimeSec b \<le> MTimeSec a) (sortVersions S vs)"
  by (simp add: sort_Slice_contract_def sortVersions_def mtime_newer_def not_less)

subsection \<open>The scan of haveValidVersion\<close>

lemma hvv_loop_all_chunked:
  "\<forall>v\<in>set vs. isChunked (fi_Size v) \<Longrightarrow> haveValidVersion_loop vs r = (False, r)"
  by (induction vs) auto

lemma hvv_loop_first:
  "\<exists>v\<in>set vs. \<not> isChunked (fi_Size v) \<Longrightarrow>
   \<exists>pre v post. vs = pre @ v # post \<and> (\<forall>u\<in>set pre. isChunked (fi_Size u)) \<and>
      \<not> isChunked (fi_Size v) \<and>
      haveValidVersion_loop vs r = (True, r\<lparr>Status := notNasty, ValidVersion := Some v\<rparr>)"
proof (induction vs)
  case Nil
  then show ?case by simp
next
  case (Cons x xs)
  show ?case
  proof (cases "isChunked (fi_Size x)")
    case True
    with Cons.prems have "\<exists>v\<in>set xs. \<not> isChunked (fi_Size v)" by auto
    from Cons.IH [OF this] obtain pre v post where
      "xs = pre @ v # post" "\<forall>u\<in>set pre. isChunked (fi_Size u)" "\<not> isChunked (fi_Size v)"
      "haveValidVersion_loop xs r = (True, r\<lparr>Status := notNasty, ValidVersion := Some v\<rparr>)"
      by blast
    with True have "x # xs = (x # pre) @ v # post \<and>
      (\<forall>u\<in>set (x # pre). isChunked (fi_Size u)) \<and> \<not> isChunked (fi_Size v) \<and>
      haveValidVersion_loop (x # xs) r = (True, r\<lparr>Status := notNasty, ValidVersion := Some v\<rparr>)"
      by simp
    then show ?thesis by blast
  next
    case False
    then have "x # xs = [] @ x # xs \<and> (\<forall>u\<in>set []. isChunked (fi_Size u)) \<and>
      \<not> isChunked (fi_Size x) \<and>
      haveValidVersion_loop (x # xs) r = (True, r\<lparr>Status := notNasty, ValidVersion := Some x\<rparr>)"
      by simp
    then show ?thesis by blast
  qed
qed

lemma hvv_none:
  assumes "sort_Slice_contract S mtime_newer"
    and "\<forall>v\<in>set (Versions r). isChunked (fi_Size v)"
  shows "haveValidVersion S r = (False, r\<lparr>Versions := sortVersions S (Versions r)\<rparr>)"
  using assms by (simp add: haveValidVersion_def hvv_loop_all_chunked contract_set)

lemma hvv_some:
  assumes c: "sort_Slice_contract S mtime_newer"
    and ex: "\<exists>v\<in>set (Versions r). \<not> isChunked (fi_Size v)"
  shows "\<exists>pre v post. sortVersions S (Versions r) = pre @ v # post \<and>
      (\<forall>u\<in>set pre. isChunked (fi_Size u)) \<and> \<not> isChunked (fi_Size v) \<and>
      v \<in> set (Versions r) \<and>
      (\<forall>u\<in>set (Versions r). \<not> isChunked (fi_Size u) \<longrightarrow> MTimeSec u \<le> MTimeSec v) \<and>
      haveValidVersion S r =
        (True, r\<lparr>Versions := sortVersions S (Versions r), Status := notNasty,
                 ValidVersion := Some v\<rparr>)"
proof -
  let ?vs = "sortVersions S (Versions r)"
  from ex c have "\<exists>v\<in>set ?vs. \<not> isChunked (fi_Size v)"
    by (simp add: contract_set)
  from hvv_loop_first [OF this, of "r\<lparr>Versions := ?vs\<rparr>"] obtain pre v post where
    dec: "?vs = pre @ v # post" and pre: "\<forall>u\<in>set pre. isChunked (fi_Size u)"
    and v: "\<not> isChunked (fi_Size v)"
    and run: "haveValidVersion_loop ?vs (r\<lparr>Versions := ?vs\<rparr>) =
        (True, r\<lparr>Versions := ?vs, Status := notNasty, ValidVersion := Some v\<rparr>)"
    by auto
  have srt: "sorted_wrt (\<lambda>a b. MTimeSec b \<le> MTimeSec a) (pre @ v # post)"
    using contract_sorted [OF c, of "Versions r"] dec by simp
  have mem: "v \<in> set (Versions r)"
    using contract_set [OF c, of "Versions r"] dec by auto
  have newest: "\<forall>u\<in>set (Versions r). \<not> isChunked (fi_Size u) \<longrightarrow> MTimeSec u \<le> MTimeSec v"
  proof (intro ballI impI)
    fix u assume "u \<in> set (Versions r)" and nu: "\<not> isChunked (fi_Size u)"
    then have "u \<in> set (pre @ v # post)"
      using contract_set [OF c, of "Versions r"] dec by simp
    with nu pre have "u = v \<or> u \<in> set post" by auto
    with srt show "MTimeSec u \<le> MTimeSec v"
      by (auto simp: sorted_wrt_append)
  qed
  have "haveValidVersion S r =
        (True, r\<lparr>Versions := ?vs, Status := notNasty, ValidVersion := Some v\<rparr>)"
    using run by (simp add: haveValidVersion_def)
  with dec pre v mem newest show ?thesis by blast
qed

text \<open>
  C3 (as the code has it). Whatever order \<^verbatim>\<open>sort.Slice\<close> leaves among versions of equal
  time, \<open>haveValidVersion\<close> leaves the record's versions rearranged in descending
  \<open>MTimeSec\<close> and scans them from the newest. It answers true exactly when some version
  is not chunk-aligned; then every version before the chosen one in that order is
  chunk-aligned, the chosen one is not, it becomes \<open>ValidVersion\<close>, and no version that
  is not chunk-aligned is newer than it. When it answers false only the order of the
  versions has changed.
\<close>

theorem haveValidVersion_first_unchunked:
  assumes "sort_Slice_contract sort_Slice mtime_newer"
    and "haveValidVersion sort_Slice r = (valid, r')"
  shows "Versions r' = sortVersions sort_Slice (Versions r) \<and>
    mset (Versions r') = mset (Versions r) \<and>
    sorted_wrt (\<lambda>a b. MTimeSec b \<le> MTimeSec a) (Versions r') \<and>
    (valid \<longleftrightarrow> (\<exists>v\<in>set (Versions r). \<not> isChunked (fi_Size v))) \<and>
    (valid \<longrightarrow>
      (\<exists>pre v post. Versions r' = pre @ v # post \<and>
         (\<forall>u\<in>set pre. isChunked (fi_Size u)) \<and> \<not> isChunked (fi_Size v) \<and>
         ValidVersion r' = Some v \<and>
         (\<forall>u\<in>set (Versions r). \<not> isChunked (fi_Size u) \<longrightarrow> MTimeSec u \<le> MTimeSec v))) \<and>
    (\<not> valid \<longrightarrow> r' = r\<lparr>Versions := sortVersions sort_Slice (Versions r)\<rparr>)"
proof (cases "\<exists>v\<in>set (Versions r). \<not> isChunked (fi_Size v)")
  case True
  from hvv_some [OF assms(1) True] obtain pre v post where
    dec: "sortVersions sort_Slice (Versions r) = pre @ v # post"
    and pre: "\<forall>u\<in>set pre. isChunked (fi_Size u)" and v: "\<not> isChunked (fi_Size v)"
    and newest: "\<forall>u\<in>set (Versions r). \<not> isChunked (fi_Size u) \<longrightarrow> MTimeSec u \<le> MTimeSec v"
    and run: "haveValidVersion sort_Slice r =
        (True, r\<lparr>Versions := sortVersions sort_Slice (Versions r), Status := notNasty,
                 ValidVersion := Some v\<rparr>)"
    by blast
  from run assms(2) have valid: "valid"
    and r': "r' = r\<lparr>Versions := sortVersions sort_Slice (Versions r), Status := notNasty,
                 ValidVersion := Some v\<rparr>"
    by simp_all
  have vs: "Versions r' = sortVersions sort_Slice (Versions r)" and vv: "ValidVersion r' = Some v"
    by (simp_all add: r')
  have "\<exists>pre v post. Versions r' = pre @ v # post \<and>
         (\<forall>u\<in>set pre. isChunked (fi_Size u)) \<and> \<not> isChunked (fi_Size v) \<and>
         ValidVersion r' = Some v \<and>
         (\<forall>u\<in>set (Versions r). \<not> isChunked (fi_Size u) \<longrightarrow> MTimeSec u \<le> MTimeSec v)"
    using dec pre v newest vs vv by metis
  with True valid vs contract_mset [OF assms(1), of "Versions r"]
    contract_sorted [OF assms(1), of "Versions r"]
  show ?thesis by simp
next
  case False
  then have all: "\<forall>v\<in>set (Versions r). isChunked (fi_Size v)" by blast
  from hvv_none [OF assms(1) all] assms(2) have "\<not> valid"
    and r': "r' = r\<lparr>Versions := sortVersions sort_Slice (Versions r)\<rparr>"
    by simp_all
  with False contract_mset [OF assms(1), of "Versions r"]
    contract_sorted [OF assms(1), of "Versions r"]
  show ?thesis by simp
qed

text \<open>
  The specification's scenario: versions of 30,000,000 bytes at time 100 and of
  15,000,000 bytes at time 90; the one at time 90 is chosen.
\<close>

theorem haveValidVersion_first_unchunked_witness:
  "sort_Slice_contract insertionSort mtime_newer \<and>
   haveValidVersion insertionSort
     (zero_record\<lparr>Versions := [version ''v100'' 30000000 100, version ''v90'' 15000000 90]\<rparr>)
   = (True, zero_record\<lparr>Versions := [version ''v100'' 30000000 100, version ''v90'' 15000000 90],
        ValidVersion := Some (version ''v90'' 15000000 90)\<rparr>) \<and>
   (\<exists>pre v post.
      [version ''v100'' 30000000 100, version ''v90'' 15000000 90] = pre @ v # post \<and>
      (\<forall>u\<in>set pre. isChunked (fi_Size u)) \<and> \<not> isChunked (fi_Size v) \<and>
      Some (version ''v90'' 15000000 90) = Some v)"
proof -
  let ?vs = "[version ''v100'' 30000000 100, version ''v90'' 15000000 90]"
  let ?r = "zero_record\<lparr>Versions := ?vs\<rparr>"
  let ?r' = "zero_record\<lparr>Versions := ?vs, ValidVersion := Some (version ''v90'' 15000000 90)\<rparr>"
  have c: "sort_Slice_contract insertionSort mtime_newer"
    by (rule insertionSort_contract)
  have run: "haveValidVersion insertionSort ?r = (True, ?r')"
    by (simp add: haveValidVersion_def sortVersions_def insertionSort_def mtime_newer_def
        version_def isChunked_def zero_record_def)
  from haveValidVersion_first_unchunked [OF c run]
  have "\<exists>pre v post. Versions ?r' = pre @ v # post \<and>
         (\<forall>u\<in>set pre. isChunked (fi_Size u)) \<and> \<not> isChunked (fi_Size v) \<and>
         ValidVersion ?r' = Some v \<and>
         (\<forall>u\<in>set (Versions ?r). \<not> isChunked (fi_Size u) \<longrightarrow> MTimeSec u \<le> MTimeSec v)"
    by blast
  then have "\<exists>pre v post. ?vs = pre @ v # post \<and>
      (\<forall>u\<in>set pre. isChunked (fi_Size u)) \<and> \<not> isChunked (fi_Size v) \<and>
      Some (version ''v90'' 15000000 90) = Some v"
    by simp blast
  with c run show ?thesis by blast
qed

text \<open>
  The order of the specification is a sorted rearrangement that keeps versions of equal
  time in input order.
\<close>

lemma spec_sortVersions_stable:
  "mset (spec_sortVersions vs) = mset vs \<and>
   sorted_wrt (\<lambda>a b. MTimeSec b \<le> MTimeSec a) (spec_sortVersions vs) \<and>
   filter (\<lambda>v. MTimeSec v = k) (spec_sortVersions vs) = filter (\<lambda>v. MTimeSec v = k) vs"
proof -
  have "sorted (map MTimeSec (sort_key MTimeSec (rev vs)))"
    by (rule sorted_sort_key)
  then have "sorted_wrt (\<lambda>a b. MTimeSec a \<le> MTimeSec b) (sort_key MTimeSec (rev vs))"
    by (simp add: sorted_map)
  then have "sorted_wrt (\<lambda>a b. MTimeSec b \<le> MTimeSec a) (spec_sortVersions vs)"
    by (simp add: spec_sortVersions_def sorted_wrt_rev)
  moreover have "filter (\<lambda>v. MTimeSec v = k) (spec_sortVersions vs) = filter (\<lambda>v. MTimeSec v = k) vs"
    by (simp add: spec_sortVersions_def rev_filter [symmetric] sort_key_stable)
  ultimately show ?thesis
    by (simp add: spec_sortVersions_def)
qed

text \<open>
  C3 as written fails twice on the seven versions, sorted by a sorter within the
  contract of \<^verbatim>\<open>sort.Slice\<close>: the version chosen is \<open>b\<close>, where the stable order of the
  specification has \<open>a\<close> first; and the status the record gets is \<open>notNasty\<close>, not
  \<open>repairable\<close>.
\<close>

theorem haveValidVersion_stable_repairable_counterexample:
  "sort_Slice_contract gapInsertionSort mtime_newer \<and>
   ValidVersion (snd (haveValidVersion gapInsertionSort (zero_record\<lparr>Versions := seven_versions\<rparr>)))
     = Some (version ''b'' 2500 5) \<and>
   spec_selectedVersion seven_versions = Some (version ''a'' 1500 5) \<and>
   Status (snd (haveValidVersion gapInsertionSort (zero_record\<lparr>Versions := seven_versions\<rparr>)))
     = notNasty \<and>
   Status (snd (haveValidVersion gapInsertionSort (zero_record\<lparr>Versions := seven_versions\<rparr>)))
     \<noteq> repairable"
proof -
  have "haveValidVersion gapInsertionSort (zero_record\<lparr>Versions := seven_versions\<rparr>) =
    (True, zero_record\<lparr>Versions :=
        [version ''g'' 20000000 9, version ''b'' 2500 5, version ''a'' 1500 5,
         version ''c'' 10000000 1, version ''d'' 10000000 1,
         version ''e'' 10000000 1, version ''f'' 10000000 1],
       ValidVersion := Some (version ''b'' 2500 5)\<rparr>)"
    by (simp add: haveValidVersion_def sortVersions_def insertionSort_def gapInsertionSort_def
        gap_swap_def mtime_newer_def version_def isChunked_def zero_record_def
        seven_versions_def upt_conv_Cons)
  moreover have "spec_selectedVersion seven_versions = Some (version ''a'' 1500 5)"
    by (simp add: spec_selectedVersion_def spec_sortVersions_def version_def isChunked_def
        seven_versions_def)
  ultimately show ?thesis
    by (simp add: gapInsertionSort_contract zero_record_def)
qed

subsection \<open>The choice and the order of the listing\<close>




section \<open>The loops, stage by stage\<close>

subsection \<open>One record under analyze\<close>

lemma hvv_loop_Size: "Size (snd (haveValidVersion_loop vs r)) = Size r"
  by (induction vs) auto

lemma hvv_loop_File: "File (snd (haveValidVersion_loop vs r)) = File r"
  by (induction vs) auto

lemma hvv_loop_Status:
  "Status (snd (haveValidVersion_loop vs r)) = Status r \<or>
   Status (snd (haveValidVersion_loop vs r)) = notNasty"
  by (induction vs) auto

lemma hvv_loop_True:
  "fst (haveValidVersion_loop vs r) \<Longrightarrow>
   ValidVersion (snd (haveValidVersion_loop vs r)) \<noteq> None \<and>
   Status (snd (haveValidVersion_loop vs r)) = notNasty"
  by (induction vs) (auto split: if_splits)

lemma hvv_loop_False:
  "\<not> fst (haveValidVersion_loop vs r) \<Longrightarrow> snd (haveValidVersion_loop vs r) = r"
  by (induction vs) (auto split: if_splits)

lemma haveValidVersion_unfold:
  "haveValidVersion S r =
    haveValidVersion_loop (sortVersions S (Versions r)) (r\<lparr>Versions := sortVersions S (Versions r)\<rparr>)"
  by (simp add: haveValidVersion_def)

lemma analyze_record_unfold:
  "analyze_record S r vs =
    (if vs = [] then (False, r\<lparr>Versions := vs, Status := nastyNoVersions\<rparr>)
     else if fst (haveValidVersion S (r\<lparr>Versions := vs\<rparr>))
       then (True, snd (haveValidVersion S (r\<lparr>Versions := vs\<rparr>)))
       else (False, (snd (haveValidVersion S (r\<lparr>Versions := vs\<rparr>)))\<lparr>Status := nastyInvalidVersion\<rparr>))"
  by (simp add: analyze_record_def Let_def case_prod_beta)

lemma analyze_record_Size: "Size (snd (analyze_record S r vs)) = Size r"
  by (simp add: analyze_record_unfold haveValidVersion_unfold hvv_loop_Size)

lemma analyze_record_File: "File (snd (analyze_record S r vs)) = File r"
  by (simp add: analyze_record_unfold haveValidVersion_unfold hvv_loop_File)

lemma analyze_record_Status:
  "Status (snd (analyze_record S r vs)) = notNasty \<or>
   Status (snd (analyze_record S r vs)) = nastyNoVersions \<or>
   Status (snd (analyze_record S r vs)) = nastyInvalidVersion"
  by (simp add: analyze_record_unfold haveValidVersion_unfold hvv_loop_True)

lemma analyze_record_keep:
  "fst (analyze_record S r vs) \<Longrightarrow>
   ValidVersion (snd (analyze_record S r vs)) \<noteq> None \<and>
   Status (snd (analyze_record S r vs)) = notNasty"
  using hvv_loop_True [of "sortVersions S vs" "r\<lparr>Versions := sortVersions S vs\<rparr>"]
  by (simp add: analyze_record_unfold haveValidVersion_unfold split: if_splits)

lemma analyze_record_outcome:
  assumes "sort_Slice_contract S mtime_newer"
  shows "(fst (analyze_record S r vs) \<longleftrightarrow> (\<exists>v\<in>set vs. \<not> isChunked (fi_Size v))) \<and>
    (Status (snd (analyze_record S r vs)) = nastyNoVersions \<longleftrightarrow> vs = []) \<and>
    (Status (snd (analyze_record S r vs)) = nastyInvalidVersion \<longleftrightarrow>
       vs \<noteq> [] \<and> (\<forall>v\<in>set vs. isChunked (fi_Size v))) \<and>
    mset (Versions (snd (analyze_record S r vs))) = mset vs"
proof (cases "\<exists>v\<in>set vs. \<not> isChunked (fi_Size v)")
  case True
  then have ne: "vs \<noteq> []" by auto
  from True have "\<exists>v\<in>set (Versions (r\<lparr>Versions := vs\<rparr>)). \<not> isChunked (fi_Size v)" by simp
  from hvv_some [OF assms this] obtain v where
    "haveValidVersion S (r\<lparr>Versions := vs\<rparr>) =
        (True, r\<lparr>Versions := sortVersions S vs, Status := notNasty, ValidVersion := Some v\<rparr>)"
    by auto
  with True ne show ?thesis
    by (simp add: analyze_record_unfold contract_mset [OF assms])
next
  case False
  then have "\<forall>v\<in>set (Versions (r\<lparr>Versions := vs\<rparr>)). isChunked (fi_Size v)" by simp
  from hvv_none [OF assms this] False show ?thesis
    by (simp add: analyze_record_unfold contract_mset [OF assms])
qed

lemma hvv_loop_ValidVersion_kept:
  "ValidVersion r \<noteq> None \<Longrightarrow> ValidVersion (snd (haveValidVersion_loop vs r)) \<noteq> None"
  by (induction vs) auto

lemma analyze_record_ValidVersion_kept:
  "ValidVersion r \<noteq> None \<Longrightarrow> ValidVersion (snd (analyze_record S r vs)) \<noteq> None"
  using hvv_loop_ValidVersion_kept [of "r\<lparr>Versions := sortVersions S vs\<rparr>" "sortVersions S vs"]
  by (simp add: analyze_record_unfold haveValidVersion_unfold)

lemma analyze_loop_Cons:
  "analyze_loop S c (r # chunked) nc nasty w =
    (case fst (ListVersions c (File (heap w r)) (backend w)) of
       Inl err \<Rightarrow>
         (Inl (LogFatal err),
          w\<lparr>trace := trace w @ [CallListVersions (File (heap w r))],
            backend := snd (ListVersions c (File (heap w r)) (backend w))\<rparr>)
     | Inr versions \<Rightarrow>
         analyze_loop S c chunked
           (if fst (analyze_record S (heap w r) versions) then nc @ [r] else nc)
           (if fst (analyze_record S (heap w r) versions) then nasty else nasty @ [r])
           (w\<lparr>backend := snd (ListVersions c (File (heap w r)) (backend w)),
              heap := (heap w)(r := snd (analyze_record S (heap w r) versions)),
              trace := trace w @ [CallListVersions (File (heap w r)), AssignVersions r]\<rparr>))"
  by (simp add: Let_def case_prod_beta split: sum.splits)

lemma analyze_loop_frame:
  "a \<notin> set chunked \<Longrightarrow> heap (snd (analyze_loop S c chunked nc nasty w)) a = heap w a"
proof (induction chunked arbitrary: nc nasty w)
  case Nil
  then show ?case by simp
next
  case (Cons r chunked)
  then show ?case
    by (simp add: analyze_loop_Cons del: analyze_loop.simps split: sum.splits)
qed

lemma analyze_loop_Size:
  "Size (heap (snd (analyze_loop S c chunked nc nasty w)) a) = Size (heap w a)"
proof (induction chunked arbitrary: nc nasty w)
  case Nil
  then show ?case by simp
next
  case (Cons r chunked)
  then show ?case
    by (simp add: analyze_loop_Cons analyze_record_Size del: analyze_loop.simps split: sum.splits)
qed

lemma analyze_loop_processed:
  "analyze_loop S c chunked nc nasty w = (Inr (nc', nasty'), w') \<Longrightarrow> a \<in> set chunked \<Longrightarrow>
   \<exists>r0 vs. heap w' a = snd (analyze_record S r0 vs)"
proof (induction chunked arbitrary: nc nasty w)
  case Nil
  then show ?case by simp
next
  case (Cons r chunked)
  from Cons.prems(1) obtain versions where
    lv: "fst (ListVersions c (File (heap w r)) (backend w)) = Inr versions"
    by (cases "fst (ListVersions c (File (heap w r)) (backend w))")
       (simp_all add: analyze_loop_Cons del: analyze_loop.simps)
  let ?w2 = "w\<lparr>backend := snd (ListVersions c (File (heap w r)) (backend w)),
              heap := (heap w)(r := snd (analyze_record S (heap w r) versions)),
              trace := trace w @ [CallListVersions (File (heap w r)), AssignVersions r]\<rparr>"
  let ?nc = "if fst (analyze_record S (heap w r) versions) then nc @ [r] else nc"
  let ?nasty = "if fst (analyze_record S (heap w r) versions) then nasty else nasty @ [r]"
  from Cons.prems(1) lv have rest: "analyze_loop S c chunked ?nc ?nasty ?w2 = (Inr (nc', nasty'), w')"
    by (simp add: analyze_loop_Cons del: analyze_loop.simps)
  show ?case
  proof (cases "a \<in> set chunked")
    case True
    from Cons.IH [OF rest True] show ?thesis .
  next
    case False
    with Cons.prems(2) have "a = r" by simp
    from analyze_loop_frame [OF False, of S c ?nc ?nasty ?w2] rest
    have "heap w' a = heap ?w2 a" by simp
    with \<open>a = r\<close> have "heap w' a = snd (analyze_record S (heap w r) versions)" by simp
    then show ?thesis by blast
  qed
qed

subsection \<open>getRecords\<close>

lemma getRecords_loop_trace:
  "trace (snd (getRecords_loop P T rds recs w)) = trace w \<and>
   backend (snd (getRecords_loop P T rds recs w)) = backend w"
  by (induction rds arbitrary: recs w) (auto simp: Let_def split: sum.splits)

lemma getRecords_loop_Size:
  "\<forall>a. Size (heap w a) = 0 \<Longrightarrow> Size (heap (snd (getRecords_loop P T rds recs w)) a) = 0"
  by (induction rds arbitrary: recs w) (auto simp: Let_def zero_record_def split: sum.splits)

lemma getRecords_loop_Status:
  "\<forall>a. Status (heap w a) = notNasty \<Longrightarrow>
   Status (heap (snd (getRecords_loop P T rds recs w)) a) = notNasty"
  by (induction rds arbitrary: recs w) (auto simp: Let_def zero_record_def split: sum.splits)

lemma getRecords_loop_ValidVersion:
  "\<forall>a. ValidVersion (heap w a) = None \<Longrightarrow>
   ValidVersion (heap (snd (getRecords_loop P T rds recs w)) a) = None"
  by (induction rds arbitrary: recs w) (auto simp: Let_def zero_record_def split: sum.splits)

lemma getRecords_loop_distinct:
  "getRecords_loop P T rds recs w = (Inr recs', w') \<Longrightarrow>
   distinct recs \<Longrightarrow> \<forall>a\<in>set recs. a < next_addr w \<Longrightarrow> distinct recs'"
proof (induction rds arbitrary: recs w)
  case Nil
  then show ?case by simp
next
  case (Cons rd rds)
  from Cons.prems(1) obtain each i where rd: "rd = Inr each" "length each = 2"
    and pi: "P (each ! 0) = Inr i"
    by (auto simp: Let_def split: sum.splits if_splits)
  let ?w = "w\<lparr>next_addr := Suc (next_addr w),
               heap := (heap w)(next_addr w := zero_record\<lparr>FXID := T (each ! Suc 0), Date := i\<rparr>)\<rparr>"
  from Cons.prems(1) rd pi
  have run: "getRecords_loop P T rds (recs @ [next_addr w]) ?w = (Inr recs', w')"
    by (simp add: Let_def)
  have d: "distinct (recs @ [next_addr w])"
    using Cons.prems(2,3) by auto
  have b: "\<forall>a\<in>set (recs @ [next_addr w]). a < next_addr ?w"
    using Cons.prems(3) by (auto simp: less_Suc_eq)
  from Cons.IH [OF run d b] show ?case .
qed

subsection \<open>skipRecords\<close>

lemma skipRecords_loop_fields:
  "Size (heap (snd (skipRecords_loop c recs toret sk w)) a) = Size (heap w a) \<and>
   Status (heap (snd (skipRecords_loop c recs toret sk w)) a) = Status (heap w a) \<and>
   ValidVersion (heap (snd (skipRecords_loop c recs toret sk w)) a) = ValidVersion (heap w a)"
  by (induction recs arbitrary: toret sk w) (auto simp: Let_def case_prod_beta split: sum.splits)

lemma skipRecords_loop_trace:
  "versions_assignments (trace (snd (skipRecords_loop c recs toret sk w))) a =
     versions_assignments (trace w) a \<and>
   rollback_calls (trace (snd (skipRecords_loop c recs toret sk w))) = rollback_calls (trace w)"
  by (induction recs arbitrary: toret sk w)
     (auto simp: Let_def case_prod_beta versions_assignments_def rollback_calls_def
        split: sum.splits)

lemma skipRecords_loop_count:
  "count_list (fst (fst (skipRecords_loop c recs toret sk w))) a \<le>
   count_list toret a + count_list recs a"
proof (induction recs arbitrary: toret sk w)
  case Nil
  then show ?case by simp
next
  case (Cons r recs)
  show ?case
    apply (simp add: Let_def case_prod_beta split: sum.splits)
    apply (intro conjI impI allI)
    apply (rule order_trans [OF Cons.IH], simp)+
    done
qed

subsection \<open>getRecordDistribution\<close>

lemma getRecordDistribution_loop_fields:
  "Size (heap (snd (getRecordDistribution_loop recs ch na w)) a) = Size (heap w a) \<and>
   ValidVersion (heap (snd (getRecordDistribution_loop recs ch na w)) a) = ValidVersion (heap w a) \<and>
   trace (snd (getRecordDistribution_loop recs ch na w)) = trace w"
  by (induction recs arbitrary: ch na w) auto

lemma getRecordDistribution_loop_zero:
  "\<forall>a. Size (heap w a) = 0 \<Longrightarrow>
   fst (getRecordDistribution_loop recs ch na w) = (ch @ recs, na) \<and>
   Status (heap (snd (getRecordDistribution_loop recs ch na w)) a) = Status (heap w a)"
  by (induction recs arbitrary: ch na w) (auto simp: isChunked_def)

subsection \<open>analyze\<close>

lemma analyze_loop_step:
  assumes "fst (ListVersions c (File (heap w r)) (backend w)) = Inr versions"
  obtains nc2 nasty2 w2 where
    "analyze_loop S c (r # chunked) nc nasty w = analyze_loop S c chunked nc2 nasty2 w2"
    "heap w2 = (heap w)(r := snd (analyze_record S (heap w r) versions))"
    "trace w2 = trace w @ [CallListVersions (File (heap w r)), AssignVersions r]"
    "fst (analyze_record S (heap w r) versions) \<Longrightarrow> nc2 = nc @ [r] \<and> nasty2 = nasty"
    "\<not> fst (analyze_record S (heap w r) versions) \<Longrightarrow> nc2 = nc \<and> nasty2 = nasty @ [r]"
proof -
  define w2 where "w2 = w\<lparr>backend := snd (ListVersions c (File (heap w r)) (backend w)),
              heap := (heap w)(r := snd (analyze_record S (heap w r) versions)),
              trace := trace w @ [CallListVersions (File (heap w r)), AssignVersions r]\<rparr>"
  define nc2 where "nc2 = (if fst (analyze_record S (heap w r) versions) then nc @ [r] else nc)"
  define nasty2 where
    "nasty2 = (if fst (analyze_record S (heap w r) versions) then nasty else nasty @ [r])"
  have "analyze_loop S c (r # chunked) nc nasty w = analyze_loop S c chunked nc2 nasty2 w2"
    using assms by (simp add: analyze_loop_Cons w2_def nc2_def nasty2_def del: analyze_loop.simps)
  moreover have "heap w2 = (heap w)(r := snd (analyze_record S (heap w r) versions))"
    and "trace w2 = trace w @ [CallListVersions (File (heap w r)), AssignVersions r]"
    by (simp_all add: w2_def)
  ultimately show thesis
    using that [of nc2 nasty2 w2] by (simp add: nc2_def nasty2_def)
qed

lemma analyze_loop_abort:
  assumes "fst (ListVersions c (File (heap w r)) (backend w)) = Inl e"
  shows "fst (analyze_loop S c (r # chunked) nc nasty w) = Inl (LogFatal e) \<and>
    heap (snd (analyze_loop S c (r # chunked) nc nasty w)) = heap w \<and>
    trace (snd (analyze_loop S c (r # chunked) nc nasty w)) =
      trace w @ [CallListVersions (File (heap w r))]"
  using assms by (simp add: analyze_loop_Cons del: analyze_loop.simps)

lemma analyze_loop_Status:
  "Status (heap (snd (analyze_loop S c chunked nc nasty w)) a) = Status (heap w a) \<or>
   Status (heap (snd (analyze_loop S c chunked nc nasty w)) a) = notNasty \<or>
   Status (heap (snd (analyze_loop S c chunked nc nasty w)) a) = nastyNoVersions \<or>
   Status (heap (snd (analyze_loop S c chunked nc nasty w)) a) = nastyInvalidVersion"
proof (induction chunked arbitrary: nc nasty w)
  case Nil
  then show ?case by simp
next
  case (Cons r chunked)
  show ?case
  proof (cases "fst (ListVersions c (File (heap w r)) (backend w))")
    case (Inl e)
    from analyze_loop_abort [OF this] show ?thesis by simp
  next
    case (Inr versions)
    from analyze_loop_step [OF this, of S chunked nc nasty] obtain nc2 nasty2 w2 where
      step: "analyze_loop S c (r # chunked) nc nasty w = analyze_loop S c chunked nc2 nasty2 w2"
      and h: "heap w2 = (heap w)(r := snd (analyze_record S (heap w r) versions))"
      by blast
    have "Status (heap w2 a) = Status (heap w a) \<or> Status (heap w2 a) = notNasty \<or>
      Status (heap w2 a) = nastyNoVersions \<or> Status (heap w2 a) = nastyInvalidVersion"
      using analyze_record_Status [of S "heap w r" versions] by (simp add: h)
    with Cons.IH [of nc2 nasty2 w2] show ?thesis
      unfolding step by metis
  qed
qed

lemma analyze_loop_trace_le:
  "versions_assignments (trace (snd (analyze_loop S c chunked nc nasty w))) a \<le>
     versions_assignments (trace w) a + count_list chunked a \<and>
   rollback_calls (trace (snd (analyze_loop S c chunked nc nasty w))) = rollback_calls (trace w)"
proof (induction chunked arbitrary: nc nasty w)
  case Nil
  then show ?case by simp
next
  case (Cons r chunked)
  show ?case
  proof (cases "fst (ListVersions c (File (heap w r)) (backend w))")
    case (Inl e)
    from analyze_loop_abort [OF this, of S chunked nc nasty] show ?thesis
      by (simp add: versions_assignments_def rollback_calls_def)
  next
    case (Inr versions)
    from analyze_loop_step [OF this, of S chunked nc nasty] obtain nc2 nasty2 w2 where
      step: "analyze_loop S c (r # chunked) nc nasty w = analyze_loop S c chunked nc2 nasty2 w2"
      and t: "trace w2 = trace w @ [CallListVersions (File (heap w r)), AssignVersions r]"
      by blast
    have "versions_assignments (trace w2) a + count_list chunked a =
        versions_assignments (trace w) a + count_list (r # chunked) a"
      and "rollback_calls (trace w2) = rollback_calls (trace w)"
      by (simp_all add: versions_assignments_def rollback_calls_def t)
    with Cons.IH [of nc2 nasty2 w2] show ?thesis
      unfolding step by metis
  qed
qed

lemma analyze_loop_trace_eq:
  "analyze_loop S c chunked nc nasty w = (Inr (nc', nasty'), w') \<Longrightarrow>
   versions_assignments (trace w') a = versions_assignments (trace w) a + count_list chunked a \<and>
   count_list nc' a + count_list nasty' a =
     count_list nc a + count_list nasty a + count_list chunked a \<and>
   count_list nc a \<le> count_list nc' a \<and> count_list nasty a \<le> count_list nasty' a"
proof (induction chunked arbitrary: nc nasty w)
  case Nil
  then show ?case by simp
next
  case (Cons r chunked)
  from Cons.prems obtain versions where
    lv: "fst (ListVersions c (File (heap w r)) (backend w)) = Inr versions"
    by (cases "fst (ListVersions c (File (heap w r)) (backend w))")
       (simp_all add: analyze_loop_Cons del: analyze_loop.simps)
  from analyze_loop_step [OF this, of S chunked nc nasty] obtain nc2 nasty2 w2 where
    step: "analyze_loop S c (r # chunked) nc nasty w = analyze_loop S c chunked nc2 nasty2 w2"
    and t: "trace w2 = trace w @ [CallListVersions (File (heap w r)), AssignVersions r]"
    and k: "fst (analyze_record S (heap w r) versions) \<Longrightarrow> nc2 = nc @ [r] \<and> nasty2 = nasty"
    and nk: "\<not> fst (analyze_record S (heap w r) versions) \<Longrightarrow> nc2 = nc \<and> nasty2 = nasty @ [r]"
    by blast
  from Cons.prems step have rest: "analyze_loop S c chunked nc2 nasty2 w2 = (Inr (nc', nasty'), w')"
    by simp
  have va: "versions_assignments (trace w2) a + count_list chunked a =
        versions_assignments (trace w) a + count_list (r # chunked) a"
    by (simp add: versions_assignments_def t)
  have cnt: "count_list nc2 a + count_list nasty2 a + count_list chunked a =
      count_list nc a + count_list nasty a + count_list (r # chunked) a \<and>
      count_list nc a \<le> count_list nc2 a \<and> count_list nasty a \<le> count_list nasty2 a"
    using k nk by (cases "fst (analyze_record S (heap w r) versions)") auto
  from Cons.IH [OF rest] va cnt show ?case
    by (metis order_trans)
qed

lemma analyze_loop_ValidVersion:
  "analyze_loop S c chunked nc nasty w = (Inr (nc', nasty'), w') \<Longrightarrow>
   \<forall>a\<in>set nc. ValidVersion (heap w a) \<noteq> None \<Longrightarrow>
   \<forall>a\<in>set nc'. ValidVersion (heap w' a) \<noteq> None"
proof (induction chunked arbitrary: nc nasty w)
  case Nil
  then show ?case by simp
next
  case (Cons r chunked)
  from Cons.prems(1) obtain versions where
    lv: "fst (ListVersions c (File (heap w r)) (backend w)) = Inr versions"
    by (cases "fst (ListVersions c (File (heap w r)) (backend w))")
       (simp_all add: analyze_loop_Cons del: analyze_loop.simps)
  from analyze_loop_step [OF this, of S chunked nc nasty] obtain nc2 nasty2 w2 where
    step: "analyze_loop S c (r # chunked) nc nasty w = analyze_loop S c chunked nc2 nasty2 w2"
    and h: "heap w2 = (heap w)(r := snd (analyze_record S (heap w r) versions))"
    and k: "fst (analyze_record S (heap w r) versions) \<Longrightarrow> nc2 = nc @ [r] \<and> nasty2 = nasty"
    and nk: "\<not> fst (analyze_record S (heap w r) versions) \<Longrightarrow> nc2 = nc \<and> nasty2 = nasty @ [r]"
    by blast
  from Cons.prems(1) step have rest: "analyze_loop S c chunked nc2 nasty2 w2 = (Inr (nc', nasty'), w')"
    by simp
  have "\<forall>a\<in>set nc2. ValidVersion (heap w2 a) \<noteq> None"
  proof
    fix a assume a: "a \<in> set nc2"
    show "ValidVersion (heap w2 a) \<noteq> None"
    proof (cases "a = r")
      case True
      show ?thesis
      proof (cases "fst (analyze_record S (heap w r) versions)")
        case True
        from analyze_record_keep [OF this] \<open>a = r\<close> show ?thesis by (simp add: h)
      next
        case False
        from nk [OF this] a \<open>a = r\<close> have "r \<in> set nc" by simp
        with Cons.prems(2) have "ValidVersion (heap w r) \<noteq> None" by blast
        from analyze_record_ValidVersion_kept [OF this] \<open>a = r\<close> show ?thesis by (simp add: h)
      qed
    next
      case False
      with a k nk have "a \<in> set nc"
        by (cases "fst (analyze_record S (heap w r) versions)") auto
      with Cons.prems(2) False show ?thesis by (simp add: h)
    qed
  qed
  from Cons.IH [OF rest this] show ?case .
qed

lemma analyze_record_not_kept:
  "\<not> fst (analyze_record S r vs) \<Longrightarrow> ValidVersion (snd (analyze_record S r vs)) = ValidVersion r"
  using hvv_loop_False [of "sortVersions S vs" "r\<lparr>Versions := sortVersions S vs\<rparr>"]
  by (simp add: analyze_record_unfold haveValidVersion_unfold split: if_splits)

lemma analyze_loop_ValidVersion_only:
  "analyze_loop S c chunked nc nasty w = (Inr (nc', nasty'), w') \<Longrightarrow>
   \<forall>a. ValidVersion (heap w a) \<noteq> None \<longrightarrow> a \<in> set nc \<Longrightarrow>
   \<forall>a. ValidVersion (heap w' a) \<noteq> None \<longrightarrow> a \<in> set nc'"
proof (induction chunked arbitrary: nc nasty w)
  case Nil
  then show ?case by simp
next
  case (Cons r chunked)
  from Cons.prems(1) obtain versions where
    lv: "fst (ListVersions c (File (heap w r)) (backend w)) = Inr versions"
    by (cases "fst (ListVersions c (File (heap w r)) (backend w))")
       (simp_all add: analyze_loop_Cons del: analyze_loop.simps)
  from analyze_loop_step [OF this, of S chunked nc nasty] obtain nc2 nasty2 w2 where
    step: "analyze_loop S c (r # chunked) nc nasty w = analyze_loop S c chunked nc2 nasty2 w2"
    and h: "heap w2 = (heap w)(r := snd (analyze_record S (heap w r) versions))"
    and k: "fst (analyze_record S (heap w r) versions) \<Longrightarrow> nc2 = nc @ [r] \<and> nasty2 = nasty"
    and nk: "\<not> fst (analyze_record S (heap w r) versions) \<Longrightarrow> nc2 = nc \<and> nasty2 = nasty @ [r]"
    by blast
  from Cons.prems(1) step have rest: "analyze_loop S c chunked nc2 nasty2 w2 = (Inr (nc', nasty'), w')"
    by simp
  have "\<forall>a. ValidVersion (heap w2 a) \<noteq> None \<longrightarrow> a \<in> set nc2"
  proof (intro allI impI)
    fix a assume a: "ValidVersion (heap w2 a) \<noteq> None"
    show "a \<in> set nc2"
    proof (cases "fst (analyze_record S (heap w r) versions)")
      case True
      with k a Cons.prems(2) show ?thesis by (cases "a = r") (simp_all add: h)
    next
      case False
      with nk analyze_record_not_kept [OF False] a Cons.prems(2) show ?thesis
        by (cases "a = r") (simp_all add: h)
    qed
  qed
  from Cons.IH [OF rest this] show ?case .
qed

lemma analyze_loop_append:
  "analyze_loop S c (xs @ ys) nc nasty w =
    (case analyze_loop S c xs nc nasty w of
       (Inl f, w1) \<Rightarrow> (Inl f, w1)
     | (Inr (nc1, nasty1), w1) \<Rightarrow> analyze_loop S c ys nc1 nasty1 w1)"
proof (induction xs arbitrary: nc nasty w)
  case Nil
  then show ?case by simp
next
  case (Cons r xs)
  show ?case
  proof (cases "fst (ListVersions c (File (heap w r)) (backend w))")
    case (Inl e)
    then show ?thesis
      by (simp add: analyze_loop_Cons del: analyze_loop.simps)
  next
    case (Inr versions)
    from analyze_loop_step [OF this, of S "xs @ ys" nc nasty] 
    show ?thesis
      using Inr Cons.IH by (simp add: analyze_loop_Cons del: analyze_loop.simps)
  qed
qed

subsection \<open>analyzeNasty\<close>

lemma analyzeNasty_Cons:
  "analyzeNasty c (r # nasty) w =
    (case fst (ListVersions c (File (heap w r)) (backend w)) of
       Inl err \<Rightarrow>
         (Inl (LogFatal err),
          w\<lparr>heap := (heap w)(r := (heap w r)\<lparr>Handled := True\<rparr>),
            trace := trace w @ [CallListVersions (File (heap w r))],
            backend := snd (ListVersions c (File (heap w r)) (backend w))\<rparr>)
     | Inr versions \<Rightarrow>
         analyzeNasty c nasty
           (w\<lparr>backend := snd (ListVersions c (File (heap w r)) (backend w)),
              heap := (heap w)(r := (heap w r)\<lparr>Handled := True, Versions := versions\<rparr>),
              trace := trace w @ [CallListVersions (File (heap w r)), AssignVersions r]\<rparr>))"
  by (simp add: Let_def case_prod_beta split: sum.splits)

lemma analyzeNasty_fields:
  "Size (heap (snd (analyzeNasty c nasty w)) a) = Size (heap w a) \<and>
   Status (heap (snd (analyzeNasty c nasty w)) a) = Status (heap w a) \<and>
   File (heap (snd (analyzeNasty c nasty w)) a) = File (heap w a) \<and>
   ValidVersion (heap (snd (analyzeNasty c nasty w)) a) = ValidVersion (heap w a)"
proof (induction nasty arbitrary: w)
  case Nil
  then show ?case by simp
next
  case (Cons r nasty)
  then show ?case
    by (simp add: analyzeNasty_Cons del: analyzeNasty.simps split: sum.splits)
qed

lemma analyzeNasty_trace_le:
  "versions_assignments (trace (snd (analyzeNasty c nasty w))) a \<le>
     versions_assignments (trace w) a + count_list nasty a \<and>
   rollback_calls (trace (snd (analyzeNasty c nasty w))) = rollback_calls (trace w)"
proof (induction nasty arbitrary: w)
  case Nil
  then show ?case by simp
next
  case (Cons r nasty)
  show ?case
  proof (cases "fst (ListVersions c (File (heap w r)) (backend w))")
    case (Inl e)
    then show ?thesis
      by (simp add: analyzeNasty_Cons versions_assignments_def rollback_calls_def
          del: analyzeNasty.simps)
  next
    case (Inr versions)
    define w2 where "w2 = w\<lparr>backend := snd (ListVersions c (File (heap w r)) (backend w)),
              heap := (heap w)(r := (heap w r)\<lparr>Handled := True, Versions := versions\<rparr>),
              trace := trace w @ [CallListVersions (File (heap w r)), AssignVersions r]\<rparr>"
    have step: "analyzeNasty c (r # nasty) w = analyzeNasty c nasty w2"
      using Inr by (simp add: analyzeNasty_Cons w2_def del: analyzeNasty.simps)
    have "versions_assignments (trace w2) a + count_list nasty a =
        versions_assignments (trace w) a + count_list (r # nasty) a"
      and "rollback_calls (trace w2) = rollback_calls (trace w)"
      by (simp_all add: versions_assignments_def rollback_calls_def w2_def)
    with Cons.IH [of w2] show ?thesis
      unfolding step by metis
  qed
qed

lemma analyzeNasty_trace_eq:
  "analyzeNasty c nasty w = (Inr u, w') \<Longrightarrow>
   versions_assignments (trace w') a = versions_assignments (trace w) a + count_list nasty a"
proof (induction nasty arbitrary: w)
  case Nil
  then show ?case by simp
next
  case (Cons r nasty)
  from Cons.prems obtain versions where
    lv: "fst (ListVersions c (File (heap w r)) (backend w)) = Inr versions"
    by (cases "fst (ListVersions c (File (heap w r)) (backend w))")
       (simp_all add: analyzeNasty_Cons del: analyzeNasty.simps)
  define w2 where "w2 = w\<lparr>backend := snd (ListVersions c (File (heap w r)) (backend w)),
              heap := (heap w)(r := (heap w r)\<lparr>Handled := True, Versions := versions\<rparr>),
              trace := trace w @ [CallListVersions (File (heap w r)), AssignVersions r]\<rparr>"
  have step: "analyzeNasty c (r # nasty) w = analyzeNasty c nasty w2"
    using lv by (simp add: analyzeNasty_Cons w2_def del: analyzeNasty.simps)
  with Cons.prems have rest: "analyzeNasty c nasty w2 = (Inr u, w')" by simp
  have "versions_assignments (trace w2) a + count_list nasty a =
        versions_assignments (trace w) a + count_list (r # nasty) a"
    by (simp add: versions_assignments_def w2_def)
  with Cons.IH [OF rest] show ?case by simp
qed

subsection \<open>rollback\<close>

lemma rollback_heap: "heap (snd (rollback c repair chunked w)) = heap w"
  by (induction chunked arbitrary: w) (auto simp: case_prod_beta split: option.splits)

lemma rollback_assignments:
  "versions_assignments (trace (snd (rollback c repair chunked w))) a =
   versions_assignments (trace w) a"
  by (induction chunked arbitrary: w)
     (auto simp: case_prod_beta versions_assignments_def split: option.splits)

lemma rollback_dry: "snd (rollback c False chunked w) = w"
  by (induction chunked arbitrary: w) (auto split: option.splits)

lemma rollback_execute:
  "\<forall>r\<in>set chunked. ValidVersion (heap w r) \<noteq> None \<Longrightarrow>
   fst (rollback c True chunked w) = Inr () \<and>
   trace (snd (rollback c True chunked w)) =
     trace w @ map (\<lambda>r. CallRollbackToVersion (File (heap w r))
                     (path_Base (fi_File (the (ValidVersion (heap w r)))))) chunked"
proof (induction chunked arbitrary: w)
  case Nil
  then show ?case by simp
next
  case (Cons r chunked)
  from Cons.prems obtain v where v: "ValidVersion (heap w r) = Some v" by auto
  define w2 where "w2 = w\<lparr>trace := trace w @
                      [CallRollbackToVersion (File (heap w r)) (path_Base (fi_File v))],
                    backend := snd (RollbackToVersion c (File (heap w r)) (path_Base (fi_File v)) (backend w))\<rparr>"
  have step: "rollback c True (r # chunked) w = rollback c True chunked w2"
    using v by (simp add: case_prod_beta w2_def)
  have h: "heap w2 = heap w" and t: "trace w2 = trace w @
                      [CallRollbackToVersion (File (heap w r)) (path_Base (fi_File v))]"
    by (simp_all add: w2_def)
  from Cons.prems h have "\<forall>r\<in>set chunked. ValidVersion (heap w2 r) \<noteq> None" by simp
  from Cons.IH [OF this] show ?case
    unfolding step by (simp add: h t v)
qed

subsection \<open>The stages of a run\<close>

lemma main_run_stages:
  obtains
    (load) f w1 where
      "getRecords P T file (init_world b) = (Inl f, w1)"
      "main_run S P T c repair file b = (Inl f, w1)"
  | (analysis) records w1 newRecords sk w2 chunked nasty w3 f w4 where
      "getRecords P T file (init_world b) = (Inr records, w1)"
      "skipRecords c records w1 = ((newRecords, sk), w2)"
      "getRecordDistribution newRecords w2 = ((chunked, nasty), w3)"
      "analyze S c chunked nasty w3 = (Inl f, w4)"
      "main_run S P T c repair file b = (Inl f, w4)"
  | (listing) records w1 newRecords sk w2 chunked nasty w3 chunked' nasty' w4 f w5 where
      "getRecords P T file (init_world b) = (Inr records, w1)"
      "skipRecords c records w1 = ((newRecords, sk), w2)"
      "getRecordDistribution newRecords w2 = ((chunked, nasty), w3)"
      "analyze S c chunked nasty w3 = (Inr (chunked', nasty'), w4)"
      "analyzeNasty c nasty' w4 = (Inl f, w5)"
      "main_run S P T c repair file b = (Inl f, w5)"
  | (finish) records w1 newRecords sk w2 chunked nasty w3 chunked' nasty' w4 u w5 res w6 where
      "getRecords P T file (init_world b) = (Inr records, w1)"
      "skipRecords c records w1 = ((newRecords, sk), w2)"
      "getRecordDistribution newRecords w2 = ((chunked, nasty), w3)"
      "analyze S c chunked nasty w3 = (Inr (chunked', nasty'), w4)"
      "analyzeNasty c nasty' w4 = (Inr u, w5)"
      "rollback c repair chunked' w5 = (res, w6)"
      "main_run S P T c repair file b =
        (case res of Inl f \<Rightarrow> Inl f | Inr u' \<Rightarrow> Inr (chunked', nasty', sk), w6)"
proof -
  obtain r1 w1 where g: "getRecords P T file (init_world b) = (r1, w1)"
    by (cases "getRecords P T file (init_world b)")
  show thesis
  proof (cases r1)
    case (Inl f)
    with g show thesis by (intro load [of f w1]) (simp_all add: main_run_def)
  next
    case (Inr records)
    obtain newRecords sk w2 where s: "skipRecords c records w1 = ((newRecords, sk), w2)"
      by (cases "skipRecords c records w1") auto
    obtain chunked nasty w3 where d: "getRecordDistribution newRecords w2 = ((chunked, nasty), w3)"
      by (cases "getRecordDistribution newRecords w2") auto
    obtain r4 w4 where a: "analyze S c chunked nasty w3 = (r4, w4)"
      by (cases "analyze S c chunked nasty w3")
    show thesis
    proof (cases r4)
      case (Inl f)
      with g Inr s d a show thesis
        by (intro analysis [of records w1 newRecords sk w2 chunked nasty w3 f w4])
           (simp_all add: main_run_def)
    next
      case r4: (Inr p)
      obtain chunked' nasty' where p: "p = (chunked', nasty')" by (cases p)
      obtain r5 w5 where n: "analyzeNasty c nasty' w4 = (r5, w5)"
        by (cases "analyzeNasty c nasty' w4")
      show thesis
      proof (cases r5)
        case (Inl f)
        with g Inr s d a r4 p n show thesis
          by (intro listing [of records w1 newRecords sk w2 chunked nasty w3 chunked' nasty' w4 f w5])
             (simp_all add: main_run_def)
      next
        case r5: (Inr u)
        obtain res w6 where rb: "rollback c repair chunked' w5 = (res, w6)"
          by (cases "rollback c repair chunked' w5")
        with g Inr s d a r4 p n r5 show thesis
          by (intro finish [of records w1 newRecords sk w2 chunked nasty w3 chunked' nasty' w4 u w5 res w6])
             (simp_all add: main_run_def split: sum.splits)
      qed
    qed
  qed
qed

lemma getRecords_facts:
  assumes "getRecords P T file (init_world b) = (res, w1)"
  shows "trace w1 = []" and "Size (heap w1 a) = 0" and "Status (heap w1 a) = notNasty"
    and "res = Inr records \<Longrightarrow> distinct records"
    and "ValidVersion (heap w1 a) = None"
proof -
  have z: "\<forall>a. Size (heap (init_world b) a) = 0" "\<forall>a. Status (heap (init_world b) a) = notNasty"
    "trace (init_world b) = []" "\<forall>a. ValidVersion (heap (init_world b) a) = None"
    by (simp_all add: init_world_def zero_record_def)
  have "trace w1 = [] \<and> Size (heap w1 a) = 0 \<and> Status (heap w1 a) = notNasty \<and>
    (res = Inr records \<longrightarrow> distinct records) \<and> ValidVersion (heap w1 a) = None"
  proof (cases "file")
    case (Inl e)
    with assms z show ?thesis by (auto simp: getRecords_def)
  next
    case (Inr reads)
    with assms have run: "getRecords_loop P T reads [] (init_world b) = (res, w1)"
      by (simp add: getRecords_def)
    then have w1: "w1 = snd (getRecords_loop P T reads [] (init_world b))" by simp
    have "trace w1 = []"
      unfolding w1 using getRecords_loop_trace [of P T reads "[]" "init_world b"] z(3) by simp
    moreover have "Size (heap w1 a) = 0"
      unfolding w1 by (rule getRecords_loop_Size [OF z(1)])
    moreover have "Status (heap w1 a) = notNasty"
      unfolding w1 by (rule getRecords_loop_Status [OF z(2)])
    moreover have "res = Inr records \<longrightarrow> distinct records"
      using getRecords_loop_distinct [of P T reads "[]" "init_world b" records w1] run by simp
    moreover have "ValidVersion (heap w1 a) = None"
      unfolding w1 by (rule getRecords_loop_ValidVersion [OF z(4)])
    ultimately show ?thesis by blast
  qed
  then show "trace w1 = []" and "Size (heap w1 a) = 0" and "Status (heap w1 a) = notNasty"
    and "res = Inr records \<Longrightarrow> distinct records"
    and "ValidVersion (heap w1 a) = None"
    by blast+
qed

lemma count_le_1_distinct: "\<forall>a. count_list xs a \<le> 1 \<Longrightarrow> distinct xs"
proof (induction xs)
  case Nil
  then show ?case by simp
next
  case (Cons x xs)
  from Cons.prems have "count_list xs x = 0"
    by (metis add_le_same_cancel2 count_list.simps(2) le_zero_eq)
  then have "x \<notin> set xs" by (simp add: count_list_0_iff)
  moreover have "\<forall>a. count_list xs a \<le> 1"
  proof
    fix a
    from Cons.prems have "count_list (x # xs) a \<le> 1" by blast
    then show "count_list xs a \<le> 1" by (simp split: if_splits)
  qed
  ultimately show ?case using Cons.IH by simp
qed

lemma distinct_count_le_1: "distinct xs \<Longrightarrow> count_list xs a \<le> 1"
  by (induction xs) (auto simp: count_list_0_iff)

lemma load_filter_classify:
  assumes g: "getRecords P T file (init_world b) = (Inr records, w1)"
    and s: "skipRecords c records w1 = ((newRecords, sk), w2)"
    and d: "getRecordDistribution newRecords w2 = ((chunked, nasty), w3)"
  shows "chunked = newRecords" and "nasty = []"
    and "count_list newRecords a \<le> 1"
    and "versions_assignments (trace w3) a = 0" and "rollback_calls (trace w3) = []"
    and "Size (heap w2 a) = 0" and "Size (heap w3 a) = 0"
    and "Status (heap w3 a) = notNasty"
    and "ValidVersion (heap w3 a) = None"
proof -
  let ?sk0 = "\<lparr>sk_Recycle = 0, sk_Versions = 0, sk_Atomic = 0\<rparr>"
  from s have w2: "w2 = snd (skipRecords_loop c records [] ?sk0 w1)"
    and nr: "newRecords = fst (fst (skipRecords_loop c records [] ?sk0 w1))"
    by (simp_all add: skipRecords_def)
  from d have w3: "w3 = snd (getRecordDistribution_loop newRecords [] [] w2)"
    and cn: "(chunked, nasty) = fst (getRecordDistribution_loop newRecords [] [] w2)"
    by (simp_all add: getRecordDistribution_def)
  have s2: "\<forall>a. Size (heap w2 a) = 0"
    unfolding w2 using skipRecords_loop_fields [of c records "[]" ?sk0 w1]
      getRecords_facts(2) [OF g] by simp
  then show "Size (heap w2 a) = 0" by blast
  have st2: "Status (heap w2 a) = notNasty"
    unfolding w2 using skipRecords_loop_fields [of c records "[]" ?sk0 w1 a]
      getRecords_facts(3) [OF g] by simp
  from getRecordDistribution_loop_zero [OF s2, of newRecords "[]" "[]"] cn
  show "chunked = newRecords" and "nasty = []"
    by simp_all
  show "Status (heap w3 a) = notNasty"
    unfolding w3 using getRecordDistribution_loop_zero [OF s2, of newRecords "[]" "[]" a] st2
    by simp
  show "Size (heap w3 a) = 0"
    unfolding w3 using getRecordDistribution_loop_fields [of newRecords "[]" "[]" w2 a] s2
    by simp
  have "count_list newRecords a \<le> count_list records a"
    unfolding nr using skipRecords_loop_count [of c records "[]" ?sk0 w1 a] by simp
  with distinct_count_le_1 [OF getRecords_facts(4) [OF g refl], of a]
  show "count_list newRecords a \<le> 1" by simp
  have t2: "versions_assignments (trace w2) a = 0" "rollback_calls (trace w2) = []"
    unfolding w2 using skipRecords_loop_trace [of c records "[]" ?sk0 w1 a]
      getRecords_facts(1) [OF g]
    by (simp_all add: versions_assignments_def rollback_calls_def)
  show "versions_assignments (trace w3) a = 0" and "rollback_calls (trace w3) = []"
    unfolding w3 using getRecordDistribution_loop_fields [of newRecords "[]" "[]" w2 a] t2
    by simp_all
  have "ValidVersion (heap w2 a) = None"
    unfolding w2 using skipRecords_loop_fields [of c records "[]" ?sk0 w1 a]
      getRecords_facts(5) [OF g] by simp
  then show "ValidVersion (heap w3 a) = None"
    unfolding w3 using getRecordDistribution_loop_fields [of newRecords "[]" "[]" w2 a]
    by simp
qed


section \<open>The claims about whole stages and runs\<close>

text \<open>
  C4. After a completed \<open>analyze\<close>, every record of the chunked list has status
  \<open>nastyNoVersions\<close> exactly when its version list is empty, and status
  \<open>nastyInvalidVersion\<close> exactly when its version list is not empty and every version in
  it is chunk-aligned. The same holds of one turn of the loop, in terms of the versions
  the backend listed.
\<close>

theorem analyze_nasty_outcomes:
  assumes c: "sort_Slice_contract sort_Slice mtime_newer"
    and run: "analyze sort_Slice client chunked nasty w = (Inr (chunked', nasty'), w')"
    and mem: "r \<in> set chunked"
  shows "(Status (heap w' r) = nastyNoVersions \<longleftrightarrow> Versions (heap w' r) = []) \<and>
    (Status (heap w' r) = nastyInvalidVersion \<longleftrightarrow>
       Versions (heap w' r) \<noteq> [] \<and> (\<forall>v\<in>set (Versions (heap w' r)). isChunked (fi_Size v))) \<and>
    (Status (snd (analyze_record sort_Slice r0 versions)) = nastyNoVersions \<longleftrightarrow> versions = []) \<and>
    (Status (snd (analyze_record sort_Slice r0 versions)) = nastyInvalidVersion \<longleftrightarrow>
       versions \<noteq> [] \<and> (\<forall>v\<in>set versions. isChunked (fi_Size v)))"
proof -
  from run have "analyze_loop sort_Slice client chunked [] nasty w = (Inr (chunked', nasty'), w')"
    by (simp add: analyze_def)
  from analyze_loop_processed [OF this mem] obtain r1 vs where
    h: "heap w' r = snd (analyze_record sort_Slice r1 vs)"
    by blast
  from analyze_record_outcome [OF c, of r1 vs]
  have st: "Status (heap w' r) = nastyNoVersions \<longleftrightarrow> vs = []"
    "Status (heap w' r) = nastyInvalidVersion \<longleftrightarrow> vs \<noteq> [] \<and> (\<forall>v\<in>set vs. isChunked (fi_Size v))"
    and m: "mset (Versions (heap w' r)) = mset vs"
    by (simp_all add: h)
  from m have "set (Versions (heap w' r)) = set vs" and "Versions (heap w' r) = [] \<longleftrightarrow> vs = []"
    by (metis set_mset_mset, metis mset_zero_iff)
  with st analyze_record_outcome [OF c, of r0 versions] show ?thesis
    by simp
qed

text \<open>
  C6 (as the code has it). When the listing of versions fails for a record, with the
  not-found error or any other, \<open>analyze\<close> ends the run with that error as fatal and
  leaves the records as they were before the call. After \<open>analyze\<close> a record's status
  is what it was, \<open>notNasty\<close>, \<open>nastyNoVersions\<close> or \<open>nastyInvalidVersion\<close>:
  \<open>nastyNotExistsAnymore\<close> is never assigned.
\<close>

theorem analyze_listing_error_fatal:
  assumes "analyze sort_Slice client before nasty w = (Inr (nc1, nasty1), w1)"
    and "fst (ListVersions client (File (heap w1 r)) (backend w1)) = Inl e"
  shows "fst (analyze sort_Slice client (before @ r # after) nasty w) = Inl (LogFatal e) \<and>
    heap (snd (analyze sort_Slice client (before @ r # after) nasty w)) = heap w1 \<and>
    (Status (heap (snd (analyze sort_Slice client cs ns w0)) a) = Status (heap w0 a) \<or>
     Status (heap (snd (analyze sort_Slice client cs ns w0)) a) = notNasty \<or>
     Status (heap (snd (analyze sort_Slice client cs ns w0)) a) = nastyNoVersions \<or>
     Status (heap (snd (analyze sort_Slice client cs ns w0)) a) = nastyInvalidVersion)"
proof -
  from assms(1) have "analyze_loop sort_Slice client (before @ r # after) [] nasty w =
      analyze_loop sort_Slice client (r # after) nc1 nasty1 w1"
    by (simp add: analyze_loop_append analyze_def)
  with analyze_loop_abort [OF assms(2), of sort_Slice after nc1 nasty1]
  have "fst (analyze sort_Slice client (before @ r # after) nasty w) = Inl (LogFatal e) \<and>
    heap (snd (analyze sort_Slice client (before @ r # after) nasty w)) = heap w1"
    by (simp add: analyze_def)
  moreover have "Status (heap (snd (analyze sort_Slice client cs ns w0)) a) = Status (heap w0 a) \<or>
     Status (heap (snd (analyze sort_Slice client cs ns w0)) a) = notNasty \<or>
     Status (heap (snd (analyze sort_Slice client cs ns w0)) a) = nastyNoVersions \<or>
     Status (heap (snd (analyze sort_Slice client cs ns w0)) a) = nastyInvalidVersion"
    using analyze_loop_Status [of sort_Slice client cs "[]" ns w0 a]
    by (simp add: analyze_def)
  ultimately show ?thesis by blast
qed

lemma rollback_calls_append:
  "rollback_calls (xs @ map (\<lambda>r. CallRollbackToVersion (f r) (g r)) ys) =
   rollback_calls xs @ map (\<lambda>r. CallRollbackToVersion (f r) (g r)) ys"
  by (induction ys) (simp_all add: rollback_calls_def)

lemma main_run_dry_no_calls:
  "rollback_calls (trace (snd (main_run S P T c False file b))) = []"
proof (cases rule: main_run_stages [of P T "file" b S c False])
  case (load f w1)
  with getRecords_facts(1) [OF load(1)] show ?thesis by (simp add: rollback_calls_def)
next
  case (analysis records w1 newRecords sk w2 chunked nasty w3 f w4)
  from analysis(4) have "w4 = snd (analyze_loop S c chunked [] nasty w3)" by (simp add: analyze_def)
  with analyze_loop_trace_le [of S c chunked "[]" nasty w3]
    load_filter_classify(5) [OF analysis(1,2,3)] analysis(5)
  show ?thesis by simp
next
  case (listing records w1 newRecords sk w2 chunked nasty w3 chunked' nasty' w4 f w5)
  from listing(4) have "w4 = snd (analyze_loop S c chunked [] nasty w3)" by (simp add: analyze_def)
  moreover from listing(5) have "w5 = snd (analyzeNasty c nasty' w4)" by simp
  ultimately show ?thesis
    using analyze_loop_trace_le [of S c chunked "[]" nasty w3]
      analyzeNasty_trace_le [of c nasty' w4]
      load_filter_classify(5) [OF listing(1,2,3)] listing(6)
    by simp
next
  case (finish records w1 newRecords sk w2 chunked nasty w3 chunked' nasty' w4 u w5 res w6)
  from finish(4) have "w4 = snd (analyze_loop S c chunked [] nasty w3)" by (simp add: analyze_def)
  moreover from finish(5) have "w5 = snd (analyzeNasty c nasty' w4)" by simp
  moreover from finish(6) rollback_dry [of c chunked' w5] have "w6 = w5" by simp
  ultimately show ?thesis
    using analyze_loop_trace_le [of S c chunked "[]" nasty w3]
      analyzeNasty_trace_le [of c nasty' w4]
      load_filter_classify(5) [OF finish(1,2,3)] finish(7)
    by simp
qed

lemma main_run_completed:
  assumes "main_run S P T c repair file b = (Inr (chunked', nasty', sk), w')"
  shows "distinct chunked'" and "\<forall>r\<in>set chunked'. ValidVersion (heap w' r) \<noteq> None"
    and "rollback_calls (trace w') =
       (if repair then map (\<lambda>r. CallRollbackToVersion (File (heap w' r))
                     (path_Base (fi_File (the (ValidVersion (heap w' r)))))) chunked' else [])"
    and "versions_assignments (trace w') a =
       (if a \<in> set chunked' then 1 else if a \<in> set nasty' then 2 else 0)"
    and "ValidVersion (heap w' a) \<noteq> None \<Longrightarrow> a \<in> set chunked'"
proof -
  have "distinct chunked' \<and> (\<forall>r\<in>set chunked'. ValidVersion (heap w' r) \<noteq> None) \<and>
    (ValidVersion (heap w' a) \<noteq> None \<longrightarrow> a \<in> set chunked') \<and>
    rollback_calls (trace w') =
       (if repair then map (\<lambda>r. CallRollbackToVersion (File (heap w' r))
                     (path_Base (fi_File (the (ValidVersion (heap w' r)))))) chunked' else []) \<and>
    versions_assignments (trace w') a =
       (if a \<in> set chunked' then 1 else if a \<in> set nasty' then 2 else 0)"
  proof (cases rule: main_run_stages [of P T "file" b S c repair])
    case (load f w1)
    with assms show ?thesis by simp
  next
    case (analysis records w1 newRecords sk w2 chunked nasty w3 f w4)
    with assms show ?thesis by simp
  next
    case (listing records w1 newRecords sk w2 chunked nasty w3 chunked' nasty' w4 f w5)
    with assms show ?thesis by simp
  next
    case (finish records w1 newRecords sk1 w2 chunked nasty w3 chunked1 nasty1 w4 u w5 res w6)
    from finish(7) assms have res: "res = Inr ()" and eqs: "chunked1 = chunked'" "nasty1 = nasty'"
      "w6 = w'"
      by (auto split: sum.splits)
    note lfc = load_filter_classify [OF finish(1,2,3)]
    from finish(4) have an: "analyze_loop S c chunked [] [] w3 = (Inr (chunked', nasty'), w4)"
      by (simp add: analyze_def eqs lfc(2))
    have cnt: "\<And>x. count_list chunked' x + count_list nasty' x = count_list chunked x"
      and va4: "\<And>x. versions_assignments (trace w4) x = count_list chunked x"
      using analyze_loop_trace_eq [OF an] lfc(4) by simp_all
    have le1: "\<And>x. count_list chunked x \<le> 1"
      using lfc(1,3) by simp
    have "\<forall>x. count_list chunked' x \<le> 1"
      using cnt le1 by (metis add_leD1)
    then have dist: "distinct chunked'" by (rule count_le_1_distinct)
    have vv4: "\<forall>r\<in>set chunked'. ValidVersion (heap w4 r) \<noteq> None"
      using analyze_loop_ValidVersion [OF an] by simp
    from finish(5) have w5: "w5 = snd (analyzeNasty c nasty' w4)" and
      nz: "analyzeNasty c nasty' w4 = (Inr u, w5)"
      by (simp_all add: eqs)
    have vv5: "\<forall>r\<in>set chunked'. ValidVersion (heap w5 r) \<noteq> None"
      using vv4 analyzeNasty_fields [of c nasty' w4] by (simp add: w5)
    have "\<forall>x. ValidVersion (heap w4 x) \<noteq> None \<longrightarrow> x \<in> set chunked'"
      using analyze_loop_ValidVersion_only [OF an] lfc(9) by simp
    then have only5: "ValidVersion (heap w5 a) \<noteq> None \<longrightarrow> a \<in> set chunked'"
      using analyzeNasty_fields [of c nasty' w4 a] by (simp add: w5)
    from finish(6) have w6: "w' = snd (rollback c repair chunked' w5)"
      by (simp add: eqs)
    have h6: "heap w' = heap w5"
      by (simp add: w6 rollback_heap)
    have rc5: "rollback_calls (trace w5) = []"
      using analyze_loop_trace_le [of S c chunked "[]" "[]" w3] an
        analyzeNasty_trace_le [of c nasty' w4] lfc(5)
      by (simp add: w5)
    have rc: "rollback_calls (trace w') =
       (if repair then map (\<lambda>r. CallRollbackToVersion (File (heap w' r))
                     (path_Base (fi_File (the (ValidVersion (heap w' r)))))) chunked' else [])"
    proof (cases repair)
      case True
      from rollback_execute [OF vv5, of c] True
      have "trace w' = trace w5 @ map (\<lambda>r. CallRollbackToVersion (File (heap w5 r))
                     (path_Base (fi_File (the (ValidVersion (heap w5 r)))))) chunked'"
        by (simp add: w6)
      then show ?thesis
        using True rc5 by (simp add: rollback_calls_append h6)
    next
      case False
      with rollback_dry [of c chunked' w5] rc5 show ?thesis
        by (simp add: w6)
    qed
    have va5: "versions_assignments (trace w5) a = count_list chunked a + count_list nasty' a"
      using analyzeNasty_trace_eq [OF nz, of a] va4 by simp
    have va6: "versions_assignments (trace w') a = count_list chunked a + count_list nasty' a"
      using rollback_assignments [of c repair chunked' w5 a] va5 by (simp add: w6)
    have va: "versions_assignments (trace w') a =
       (if a \<in> set chunked' then 1 else if a \<in> set nasty' then 2 else 0)"
    proof (cases "a \<in> set chunked'")
      case True
      then have "count_list chunked' a \<noteq> 0" by (simp add: count_list_0_iff)
      with cnt [of a] le1 [of a] have "count_list chunked a = 1" "count_list nasty' a = 0"
        by linarith+
      with va6 True show ?thesis by simp
    next
      case False
      then have c0: "count_list chunked' a = 0" by (simp add: count_list_0_iff)
      show ?thesis
      proof (cases "a \<in> set nasty'")
        case True
        then have "count_list nasty' a \<noteq> 0" by (simp add: count_list_0_iff)
        with cnt [of a] le1 [of a] c0 have "count_list chunked a = 1" "count_list nasty' a = 1"
          by linarith+
        with va6 True False show ?thesis by simp
      next
        case n: False
        then have "count_list nasty' a = 0" by (simp add: count_list_0_iff)
        with cnt [of a] c0 va6 False n show ?thesis by simp
      qed
    qed
    from dist vv5 rc va only5 show ?thesis by (simp add: h6)
  qed
  then show "distinct chunked'" and "\<forall>r\<in>set chunked'. ValidVersion (heap w' r) \<noteq> None"
    and "rollback_calls (trace w') =
       (if repair then map (\<lambda>r. CallRollbackToVersion (File (heap w' r))
                     (path_Base (fi_File (the (ValidVersion (heap w' r)))))) chunked' else [])"
    and "versions_assignments (trace w') a =
       (if a \<in> set chunked' then 1 else if a \<in> set nasty' then 2 else 0)"
    and "ValidVersion (heap w' a) \<noteq> None \<Longrightarrow> a \<in> set chunked'"
    by blast+
qed

lemma main_run_final_fields:
  "Size (heap (snd (main_run S P T c repair file b)) a) = 0 \<and>
   (Status (heap (snd (main_run S P T c repair file b)) a) = notNasty \<or>
    Status (heap (snd (main_run S P T c repair file b)) a) = nastyNoVersions \<or>
    Status (heap (snd (main_run S P T c repair file b)) a) = nastyInvalidVersion)"
proof (cases rule: main_run_stages [of P T "file" b S c repair])
  case (load f w1)
  with getRecords_facts(2,3) [OF load(1), of a] show ?thesis by simp
next
  case (analysis records w1 newRecords sk w2 chunked nasty w3 f w4)
  from analysis(4) have w4: "w4 = snd (analyze_loop S c chunked [] nasty w3)"
    by (simp add: analyze_def)
  note lfc = load_filter_classify [OF analysis(1,2,3)]
  from analyze_loop_Size [of S c chunked "[]" nasty w3 a]
    analyze_loop_Status [of S c chunked "[]" nasty w3 a] lfc(7,8) [of a] analysis(5)
  show ?thesis by (simp add: w4)
next
  case (listing records w1 newRecords sk w2 chunked nasty w3 chunked' nasty' w4 f w5)
  from listing(4) have w4: "w4 = snd (analyze_loop S c chunked [] nasty w3)"
    by (simp add: analyze_def)
  from listing(5) have w5: "w5 = snd (analyzeNasty c nasty' w4)" by simp
  note lfc = load_filter_classify [OF listing(1,2,3)]
  from analyze_loop_Size [of S c chunked "[]" nasty w3 a]
    analyze_loop_Status [of S c chunked "[]" nasty w3 a] lfc(7,8) [of a]
  have "Size (heap w4 a) = 0 \<and> (Status (heap w4 a) = notNasty \<or>
    Status (heap w4 a) = nastyNoVersions \<or> Status (heap w4 a) = nastyInvalidVersion)"
    by (simp add: w4)
  with analyzeNasty_fields [of c nasty' w4 a] listing(6) show ?thesis
    by (simp add: w5)
next
  case (finish records w1 newRecords sk w2 chunked nasty w3 chunked' nasty' w4 u w5 res w6)
  from finish(4) have w4: "w4 = snd (analyze_loop S c chunked [] nasty w3)"
    by (simp add: analyze_def)
  from finish(5) have w5: "w5 = snd (analyzeNasty c nasty' w4)" by simp
  from finish(6) have w6: "w6 = snd (rollback c repair chunked' w5)" by simp
  note lfc = load_filter_classify [OF finish(1,2,3)]
  from analyze_loop_Size [of S c chunked "[]" nasty w3 a]
    analyze_loop_Status [of S c chunked "[]" nasty w3 a] lfc(7,8) [of a]
  have "Size (heap w4 a) = 0 \<and> (Status (heap w4 a) = notNasty \<or>
    Status (heap w4 a) = nastyNoVersions \<or> Status (heap w4 a) = nastyInvalidVersion)"
    by (simp add: w4)
  with analyzeNasty_fields [of c nasty' w4 a] rollback_heap [of c repair chunked' w5] finish(7)
  show ?thesis
    by (simp add: w5 w6)
qed

lemma main_run_assignments_le:
  "versions_assignments (trace (snd (main_run S P T c repair file b))) a \<le> 2"
proof (cases rule: main_run_stages [of P T "file" b S c repair])
  case (load f w1)
  with getRecords_facts(1) [OF load(1)] show ?thesis
    by (simp add: versions_assignments_def)
next
  case (analysis records w1 newRecords sk w2 chunked nasty w3 f w4)
  from analysis(4) have w4: "w4 = snd (analyze_loop S c chunked [] nasty w3)"
    by (simp add: analyze_def)
  note lfc = load_filter_classify [OF analysis(1,2,3)]
  from analyze_loop_trace_le [of S c chunked "[]" nasty w3 a] lfc(1) lfc(3,4) [of a] analysis(5)
  show ?thesis by (simp add: w4)
next
  case (listing records w1 newRecords sk w2 chunked nasty w3 chunked' nasty' w4 f w5)
  note lfc = load_filter_classify [OF listing(1,2,3)]
  from listing(4) have an: "analyze_loop S c chunked [] [] w3 = (Inr (chunked', nasty'), w4)"
    by (simp add: analyze_def lfc(2))
  from listing(5) have w5: "w5 = snd (analyzeNasty c nasty' w4)" by simp
  from analyze_loop_trace_eq [OF an, of a] lfc(1) lfc(3,4) [of a]
  have "versions_assignments (trace w4) a \<le> 1" "count_list nasty' a \<le> 1"
    by simp_all
  with analyzeNasty_trace_le [of c nasty' w4 a] listing(6) show ?thesis
    by (simp add: w5)
next
  case (finish records w1 newRecords sk w2 chunked nasty w3 chunked' nasty' w4 u w5 res w6)
  note lfc = load_filter_classify [OF finish(1,2,3)]
  from finish(4) have an: "analyze_loop S c chunked [] [] w3 = (Inr (chunked', nasty'), w4)"
    by (simp add: analyze_def lfc(2))
  from finish(5) have w5: "w5 = snd (analyzeNasty c nasty' w4)" by simp
  from finish(6) have w6: "w6 = snd (rollback c repair chunked' w5)" by simp
  from analyze_loop_trace_eq [OF an, of a] lfc(1) lfc(3,4) [of a]
  have "versions_assignments (trace w4) a \<le> 1" "count_list nasty' a \<le> 1"
    by simp_all
  with analyzeNasty_trace_le [of c nasty' w4 a] rollback_assignments [of c repair chunked' w5 a]
    finish(7)
  show ?thesis
    by (simp add: w5 w6)
qed

text \<open>
  C7. In dry-run mode \<open>rollback\<close> returns the world as it got it, and no run of \<open>main\<close>
  calls \<^verbatim>\<open>RollbackToVersion\<close>. In execute mode \<open>rollback\<close> on records that have a valid
  version makes one call for each entry of its list, in order, whatever the calls return;
  and a completed run of \<open>main\<close> has made exactly one call for each record of the final
  repairable list, which holds no record twice and holds exactly the records that have a
  valid version.
\<close>

theorem rollback_calls_by_mode:
  "snd (rollback client False chunked w) = w \<and>
   rollback_calls (trace (snd (main_run sort_Slice ParseInt TrimSpace client False file b))) = [] \<and>
   ((\<forall>r\<in>set chunked. ValidVersion (heap w r) \<noteq> None) \<longrightarrow>
      fst (rollback client True chunked w) = Inr () \<and>
      trace (snd (rollback client True chunked w)) =
        trace w @ map (\<lambda>r. CallRollbackToVersion (File (heap w r))
                        (path_Base (fi_File (the (ValidVersion (heap w r)))))) chunked) \<and>
   (main_run sort_Slice ParseInt TrimSpace client True file b = (Inr (chunked', nasty', sk), w') \<longrightarrow>
      distinct chunked' \<and> (\<forall>r\<in>set chunked'. ValidVersion (heap w' r) \<noteq> None) \<and>
      (\<forall>a. ValidVersion (heap w' a) \<noteq> None \<longrightarrow> a \<in> set chunked') \<and>
      rollback_calls (trace w') =
        map (\<lambda>r. CallRollbackToVersion (File (heap w' r))
               (path_Base (fi_File (the (ValidVersion (heap w' r)))))) chunked')"
  using rollback_dry [of client chunked w]
    main_run_dry_no_calls [of sort_Slice ParseInt TrimSpace client "file" b]
    rollback_execute [of chunked w client]
    main_run_completed(1,2,3,5) [of sort_Slice ParseInt TrimSpace client True "file" b chunked' nasty' sk w']
  by simp

text \<open>
  C8 (as the code has it). In every run, completed or not, the \<^verbatim>\<open>Versions\<close> field of a
  record is assigned at most twice. In a completed run it is assigned once for a record
  of the final repairable list (by \<open>analyze\<close>), twice for a record of the final nasty
  list (by \<open>analyze\<close> and again by \<open>analyzeNasty\<close>) and never for any other record.
\<close>

theorem versions_assigned_at_most_twice:
  "versions_assignments (trace (snd (main_run sort_Slice ParseInt TrimSpace client repair file b))) a \<le> 2 \<and>
   (main_run sort_Slice ParseInt TrimSpace client repair file b = (Inr (chunked', nasty', sk), w') \<longrightarrow>
      versions_assignments (trace w') a =
        (if a \<in> set chunked' then 1 else if a \<in> set nasty' then 2 else 0))"
  using main_run_assignments_le [of sort_Slice ParseInt TrimSpace client repair "file" b a]
    main_run_completed(4) [of sort_Slice ParseInt TrimSpace client repair "file" b chunked' nasty' sk w' a]
  by simp

text \<open>
  C10. At the end of every run, completed or not, every record has \<^verbatim>\<open>Size\<close> 0 and none
  has status \<open>nastyNotChunk\<close>. Stage by stage: after the loader, after \<open>skipRecords\<close>,
  after \<open>getRecordDistribution\<close> and after \<open>analyze\<close> the size is 0; every record
  that passed the filter is chunked; the chunked list is the whole filtered list and
  the nasty list is empty.
\<close>

theorem size_never_assigned:
  "Size (heap (snd (main_run sort_Slice ParseInt TrimSpace client repair file b)) a) = 0 \<and>
   Status (heap (snd (main_run sort_Slice ParseInt TrimSpace client repair file b)) a) \<noteq> nastyNotChunk \<and>
   (getRecords ParseInt TrimSpace file (init_world b) = (Inr records, w1) \<longrightarrow>
    skipRecords client records w1 = ((newRecords, sk), w2) \<longrightarrow>
    getRecordDistribution newRecords w2 = ((chunked, nasty), w3) \<longrightarrow>
      Size (heap w1 a) = 0 \<and> Size (heap w2 a) = 0 \<and> Size (heap w3 a) = 0 \<and>
      (\<forall>r\<in>set newRecords. isChunked (Size (heap w2 r))) \<and>
      chunked = newRecords \<and> nasty = [] \<and> Status (heap w3 a) \<noteq> nastyNotChunk \<and>
      Size (heap (snd (analyze sort_Slice client chunked nasty w3)) a) = 0 \<and>
      Status (heap (snd (analyze sort_Slice client chunked nasty w3)) a) \<noteq> nastyNotChunk)"
proof -
  have "Size (heap (snd (main_run sort_Slice ParseInt TrimSpace client repair file b)) a) = 0 \<and>
   Status (heap (snd (main_run sort_Slice ParseInt TrimSpace client repair file b)) a) \<noteq> nastyNotChunk"
    using main_run_final_fields [of sort_Slice ParseInt TrimSpace client repair "file" b a]
    by auto
  moreover have "Size (heap w1 a) = 0 \<and> Size (heap w2 a) = 0 \<and> Size (heap w3 a) = 0 \<and>
      (\<forall>r\<in>set newRecords. isChunked (Size (heap w2 r))) \<and>
      chunked = newRecords \<and> nasty = [] \<and> Status (heap w3 a) \<noteq> nastyNotChunk \<and>
      Size (heap (snd (analyze sort_Slice client chunked nasty w3)) a) = 0 \<and>
      Status (heap (snd (analyze sort_Slice client chunked nasty w3)) a) \<noteq> nastyNotChunk"
    if g: "getRecords ParseInt TrimSpace file (init_world b) = (Inr records, w1)"
      and s: "skipRecords client records w1 = ((newRecords, sk), w2)"
      and d: "getRecordDistribution newRecords w2 = ((chunked, nasty), w3)"
  proof -
    note lfc = load_filter_classify [OF g s d]
    have "\<forall>r\<in>set newRecords. isChunked (Size (heap w2 r))"
      using lfc(6) by (simp add: isChunked_def)
    moreover have "Size (heap (snd (analyze sort_Slice client chunked nasty w3)) a) = 0 \<and>
      Status (heap (snd (analyze sort_Slice client chunked nasty w3)) a) \<noteq> nastyNotChunk"
      using analyze_loop_Size [of sort_Slice client chunked "[]" nasty w3 a]
        analyze_loop_Status [of sort_Slice client chunked "[]" nasty w3 a] lfc(7,8) [of a]
      by (auto simp: analyze_def)
    ultimately show ?thesis
      using getRecords_facts(2) [OF g, of a] lfc(1,2) lfc(6,7,8) [of a] by simp
  qed
  ultimately show ?thesis by blast
qed


section \<open>Concrete runs\<close>

text \<open>The definitions a concrete run unfolds to.\<close>

lemmas example_defs = example_run_def example_client_def example_file_def example_ParseInt_def
  main_run_def getRecords_def skipRecords_def getRecordDistribution_def analyze_def
  init_world_def fixed_client_def zero_record_def version_def isChunked_def analyze_record_def
  haveValidVersion_def sortVersions_def insertionSort_def mtime_newer_def path_Base_def
  versions_assignments_def rollback_calls_def version_100_def version_90_def no_skips_def

text \<open>
  C1, on the code. The line \<^verbatim>\<open>1592324325 018edb0f\<close> is loaded as the record at address 0;
  the backend reports the path \<^verbatim>\<open>/eos/user/j/jdoe/f\<close> and the size 12,345,678. After
  \<open>skipRecords\<close> the record has passed, its \<^verbatim>\<open>File\<close> is the reported path and its
  \<^verbatim>\<open>Size\<close> is still 0, not 12,345,678; the run then keeps the record in the repairable
  list and never gives it the status \<open>nastyNotChunk\<close>.
\<close>

theorem skipRecords_leaves_Size_zero:
  "fst (getRecords example_ParseInt (\<lambda>s. s) example_file (init_world ())) = Inr [0] \<and>
   fst (skipRecords (example_client 12345678 (Inr [version_90])) [0]
         (snd (getRecords example_ParseInt (\<lambda>s. s) example_file (init_world ()))))
     = ([0], no_skips) \<and>
   File (heap (snd (skipRecords (example_client 12345678 (Inr [version_90])) [0]
         (snd (getRecords example_ParseInt (\<lambda>s. s) example_file (init_world ()))))) 0)
     = ''/eos/user/j/jdoe/f'' \<and>
   Size (heap (snd (skipRecords (example_client 12345678 (Inr [version_90])) [0]
         (snd (getRecords example_ParseInt (\<lambda>s. s) example_file (init_world ()))))) 0)
     = 0 \<and>
   fst (example_run 12345678 (Inr [version_90]) False) = Inr ([0], [], no_skips) \<and>
   Status (heap (snd (example_run 12345678 (Inr [version_90]) False)) 0) \<noteq> nastyNotChunk"
  by (simp add: example_defs)

text \<open>
  C5, on the code. The specification's scenario: current size 30,000,000, versions of
  30,000,000 bytes at time 100 and 15,000,000 bytes at time 90. At the end of the run the
  record is in the repairable list with \<^verbatim>\<open>ValidVersion\<close> the version at time 90, and
  its status is \<open>notNasty\<close>. No run ever leaves a record with status \<open>repairable\<close>.
\<close>

theorem valid_version_without_repairable:
  "fst (example_run 30000000 (Inr [version_100, version_90]) False) = Inr ([0], [], no_skips) \<and>
   ValidVersion (heap (snd (example_run 30000000 (Inr [version_100, version_90]) False)) 0)
     = Some version_90 \<and>
   Status (heap (snd (example_run 30000000 (Inr [version_100, version_90]) False)) 0) = notNasty \<and>
   Status (heap (snd (example_run 30000000 (Inr [version_100, version_90]) False)) 0) \<noteq> repairable \<and>
   Status (heap (snd (main_run sort_Slice ParseInt TrimSpace client repair file b)) a) \<noteq> repairable"
proof -
  have "Status (heap (snd (main_run sort_Slice ParseInt TrimSpace client repair file b)) a) \<noteq> repairable"
    using main_run_final_fields [of sort_Slice ParseInt TrimSpace client repair "file" b a]
    by auto
  moreover have "fst (example_run 30000000 (Inr [version_100, version_90]) False) = Inr ([0], [], no_skips)"
    by (simp add: example_defs)
  moreover have "heap (snd (example_run 30000000 (Inr [version_100, version_90]) False)) 0 =
    \<lparr>FXID = ''018edb0f'', Handled = True, Size = 0, Date = 1592324325, File = ''/eos/user/j/jdoe/f'',
     Status = notNasty, Versions = [version_100, version_90], ValidVersion = Some version_90\<rparr>"
    by (simp add: example_defs)
  ultimately show ?thesis by simp
qed

text \<open>
  C6 as written fails: when the version listing answers "not found", the run ends with
  that error as fatal and the record keeps the status \<open>notNasty\<close>.
\<close>

theorem analyze_not_found_counterexample:
  "fst (example_run 30000000 (Inl ErrNotFound) False) = Inl (LogFatal ErrNotFound) \<and>
   Status (heap (snd (example_run 30000000 (Inl ErrNotFound) False)) 0) = notNasty \<and>
   Status (heap (snd (example_run 30000000 (Inl ErrNotFound) False)) 0) \<noteq> nastyNotExistsAnymore"
  by (simp add: example_defs)

text \<open>
  C8 as written fails on a record without versions: \<open>analyze\<close> assigns its \<^verbatim>\<open>Versions\<close>
  and moves it to the nasty list, where \<open>analyzeNasty\<close> lists and assigns them again.
\<close>

theorem versions_assigned_twice_counterexample:
  "fst (example_run 30000000 (Inr []) False) = Inr ([], [0], no_skips) \<and>
   trace (snd (example_run 30000000 (Inr []) False)) =
     [CallGetFileInfoByFXID ''018edb0f'',
      CallListVersions ''/eos/user/j/jdoe/f'', AssignVersions 0,
      CallListVersions ''/eos/user/j/jdoe/f'', AssignVersions 0] \<and>
   versions_assignments (trace (snd (example_run 30000000 (Inr []) False))) 0 = 2"
  by (simp add: example_defs)

text \<open>A repairable record: one assignment.\<close>

theorem versions_assigned_at_most_twice_witness:
  "example_run 30000000 (Inr [version_100, version_90]) True =
     (Inr ([0], [], no_skips), snd (example_run 30000000 (Inr [version_100, version_90]) True)) \<and>
   versions_assignments (trace (snd (example_run 30000000 (Inr [version_100, version_90]) True))) 0 = 1 \<and>
   versions_assignments (trace (snd (example_run 30000000 (Inr [version_100, version_90]) True))) 0 \<le> 2"
proof -
  let ?run = "example_run 30000000 (Inr [version_100, version_90]) True"
  have "fst ?run = Inr ([0], [], no_skips)"
    by (simp add: example_defs)
  then have run: "?run = (Inr ([0], [], no_skips), snd ?run)"
    by (metis prod.collapse)
  from versions_assigned_at_most_twice
    [of insertionSort example_ParseInt "\<lambda>s. s" "example_client 30000000 (Inr [version_100, version_90])"
      True example_file "()" 0 "[0]" "[]" no_skips "snd ?run"]
    run
  have "versions_assignments (trace (snd ?run)) 0 \<le> 2 \<and>
    versions_assignments (trace (snd ?run)) 0 = 1"
    by (simp add: example_run_def)
  with run show ?thesis by simp
qed

text \<open>
  The scenario in both modes, every rollback call failing: one call in execute mode, none
  in dry-run mode.
\<close>

theorem rollback_calls_by_mode_witness:
  "ValidVersion (heap (snd (example_run 30000000 (Inr [version_100, version_90]) False)) 0) \<noteq> None \<and>
   trace (snd (rollback (example_client 30000000 (Inr [version_100, version_90])) True [0]
            (snd (example_run 30000000 (Inr [version_100, version_90]) False)))) =
     trace (snd (example_run 30000000 (Inr [version_100, version_90]) False)) @
       [CallRollbackToVersion ''/eos/user/j/jdoe/f'' ''1592324000.0a1b''] \<and>
   example_run 30000000 (Inr [version_100, version_90]) True =
     (Inr ([0], [], no_skips), snd (example_run 30000000 (Inr [version_100, version_90]) True)) \<and>
   rollback_calls (trace (snd (example_run 30000000 (Inr [version_100, version_90]) True))) =
     [CallRollbackToVersion ''/eos/user/j/jdoe/f'' ''1592324000.0a1b''] \<and>
   rollback_calls (trace (snd (example_run 30000000 (Inr [version_100, version_90]) False))) = []"
proof -
  let ?c = "example_client 30000000 (Inr [version_100, version_90])"
  let ?dry = "example_run 30000000 (Inr [version_100, version_90]) False"
  let ?exe = "example_run 30000000 (Inr [version_100, version_90]) True"
  have h: "heap (snd ?dry) 0 =
    \<lparr>FXID = ''018edb0f'', Handled = True, Size = 0, Date = 1592324325, File = ''/eos/user/j/jdoe/f'',
     Status = notNasty, Versions = [version_100, version_90], ValidVersion = Some version_90\<rparr>"
    by (simp add: example_defs)
  have he: "heap (snd ?exe) 0 = heap (snd ?dry) 0"
    by (simp add: example_defs)
  have vv: "\<forall>r\<in>set [0]. ValidVersion (heap (snd ?dry) r) \<noteq> None"
    by (simp add: h)
  have "fst ?exe = Inr ([0], [], no_skips)"
    by (simp add: example_defs)
  then have run: "?exe = (Inr ([0], [], no_skips), snd ?exe)"
    by (metis prod.collapse)
  have base: "path_Base (fi_File version_90) = ''1592324000.0a1b''"
    by (simp add: path_Base_def version_90_def version_def)
  note T = rollback_calls_by_mode
    [of ?c "[0]" "snd ?dry" insertionSort example_ParseInt "\<lambda>s. s" example_file "()"
      "[0]" "[]" no_skips "snd ?exe"]
  from T vv have "trace (snd (rollback ?c True [0] (snd ?dry))) =
     trace (snd ?dry) @ [CallRollbackToVersion ''/eos/user/j/jdoe/f'' ''1592324000.0a1b'']"
    by (simp add: h base)
  moreover from T run have "rollback_calls (trace (snd ?exe)) =
     [CallRollbackToVersion ''/eos/user/j/jdoe/f'' ''1592324000.0a1b'']"
    by (simp add: example_run_def [symmetric] he h base)
  moreover from T have "rollback_calls (trace (snd ?dry)) = []"
    by (simp add: example_run_def [symmetric])
  ultimately show ?thesis using run h by simp
qed

text \<open>A record whose only version is chunk-aligned.\<close>

theorem analyze_nasty_outcomes_witness:
  "sort_Slice_contract insertionSort mtime_newer \<and>
   analyze insertionSort (example_client 30000000 (Inr [version_100])) [0] [] (init_world ()) =
     (Inr ([], [0]),
      snd (analyze insertionSort (example_client 30000000 (Inr [version_100])) [0] []
            (init_world ()))) \<and>
   Versions (heap (snd (analyze insertionSort (example_client 30000000 (Inr [version_100])) [0] []
            (init_world ()))) 0) = [version_100] \<and>
   Status (heap (snd (analyze insertionSort (example_client 30000000 (Inr [version_100])) [0] []
            (init_world ()))) 0) = nastyInvalidVersion \<and>
   Status (heap (snd (analyze insertionSort (example_client 30000000 (Inr [version_100])) [0] []
            (init_world ()))) 0) \<noteq> nastyNoVersions"
proof -
  let ?a = "analyze insertionSort (example_client 30000000 (Inr [version_100])) [0] [] (init_world ())"
  have "fst ?a = Inr ([], [0])"
    by (simp add: example_defs)
  then have run: "?a = (Inr ([], [0]), snd ?a)"
    by (metis prod.collapse)
  have vs: "Versions (heap (snd ?a) 0) = [version_100]"
    by (simp add: example_defs)
  have ch: "isChunked (fi_Size version_100)"
    by (simp add: version_100_def version_def isChunked_def)
  have mem: "(0::nat) \<in> set [0]" by simp
  from analyze_nasty_outcomes [OF insertionSort_contract run mem]
  have "Status (heap (snd ?a) 0) = nastyInvalidVersion \<and> Status (heap (snd ?a) 0) \<noteq> nastyNoVersions"
    by (simp add: vs ch)
  with insertionSort_contract run vs show ?thesis by simp
qed

text \<open>A listing that answers "not found" for the first of two records.\<close>

theorem analyze_listing_error_fatal_witness:
  "analyze insertionSort (example_client 30000000 (Inl ErrNotFound)) [] [] (init_world ()) =
     (Inr ([], []), init_world ()) \<and>
   fst (ListVersions (example_client 30000000 (Inl ErrNotFound))
         (File (heap (init_world ()) 0)) (backend (init_world ()))) = Inl ErrNotFound \<and>
   fst (analyze insertionSort (example_client 30000000 (Inl ErrNotFound)) [0, 1] [] (init_world ()))
     = Inl (LogFatal ErrNotFound) \<and>
   heap (snd (analyze insertionSort (example_client 30000000 (Inl ErrNotFound)) [0, 1] []
     (init_world ()))) = heap (init_world ())"
proof -
  let ?c = "example_client 30000000 (Inl ErrNotFound)"
  have a: "analyze insertionSort ?c [] [] (init_world ()) = (Inr ([], []), init_world ())"
    by (simp add: analyze_def)
  have e: "fst (ListVersions ?c (File (heap (init_world ()) 0)) (backend (init_world ()))) =
      Inl ErrNotFound"
    by (simp add: example_client_def fixed_client_def)
  from analyze_listing_error_fatal [OF a e, of "[1]"] a e show ?thesis
    by simp
qed

text \<open>The record of reported size 12,345,678 through loader, filter and classifier.\<close>

theorem size_never_assigned_witness:
  "getRecords example_ParseInt (\<lambda>s. s) example_file (init_world ()) =
     (Inr [0], snd (getRecords example_ParseInt (\<lambda>s. s) example_file (init_world ()))) \<and>
   skipRecords (example_client 12345678 (Inr [version_90])) [0]
       (snd (getRecords example_ParseInt (\<lambda>s. s) example_file (init_world ()))) =
     (([0], no_skips),
      snd (skipRecords (example_client 12345678 (Inr [version_90])) [0]
        (snd (getRecords example_ParseInt (\<lambda>s. s) example_file (init_world ()))))) \<and>
   getRecordDistribution [0]
       (snd (skipRecords (example_client 12345678 (Inr [version_90])) [0]
        (snd (getRecords example_ParseInt (\<lambda>s. s) example_file (init_world ()))))) =
     (([0], []),
      snd (getRecordDistribution [0]
       (snd (skipRecords (example_client 12345678 (Inr [version_90])) [0]
        (snd (getRecords example_ParseInt (\<lambda>s. s) example_file (init_world ()))))))) \<and>
   Size (heap (snd (getRecordDistribution [0]
       (snd (skipRecords (example_client 12345678 (Inr [version_90])) [0]
        (snd (getRecords example_ParseInt (\<lambda>s. s) example_file (init_world ())))))))
     0) = 0 \<and>
   isChunked (Size (heap (snd (skipRecords (example_client 12345678 (Inr [version_90])) [0]
        (snd (getRecords example_ParseInt (\<lambda>s. s) example_file (init_world ()))))) 0))"
proof -
  let ?c = "example_client 12345678 (Inr [version_90])"
  let ?g = "getRecords example_ParseInt (\<lambda>s. s) example_file (init_world ())"
  let ?s = "skipRecords ?c [0] (snd ?g)"
  let ?d = "getRecordDistribution [0] (snd ?s)"
  have "fst ?g = Inr [0]" by (simp add: example_defs)
  then have g: "?g = (Inr [0], snd ?g)" by (metis prod.collapse)
  have "fst ?s = ([0], no_skips)" by (simp add: example_defs)
  then have s: "?s = (([0], no_skips), snd ?s)" by (metis prod.collapse)
  have "fst ?d = ([0], [])" by (simp add: example_defs)
  then have d: "?d = (([0], []), snd ?d)" by (metis prod.collapse)
  from size_never_assigned
    [of insertionSort example_ParseInt "\<lambda>s. s" ?c False example_file "()" 0 "[0]" "snd ?g"
      "[0]" no_skips "snd ?s" "[0]" "[]" "snd ?d"] g s d
  have "Size (heap (snd ?d) 0) = 0 \<and> (\<forall>r\<in>set [0]. isChunked (Size (heap (snd ?s) r)))"
    by blast
  then have "Size (heap (snd ?d) 0) = 0 \<and> isChunked (Size (heap (snd ?s) 0))"
    by simp
  with g s d show ?thesis by blast
qed


end
